theory Spec2Isabelle
  imports Main "HOL-Library.Sublist"
begin

section \<open>Data model\<close>

text \<open>
  JavaScript values as far as the engine looks at them. Strict equality \<open>===\<close> on these
  values is HOL equality; \<open>truthy\<close> is the conversion a condition applies.
  Numbers are the integer-valued ones.
\<close>

datatype val = Undefined | Null | Bool bool | Num int | Str string

fun truthy :: "val \<Rightarrow> bool" where
  "truthy Undefined = False"
| "truthy Null = False"
| "truthy (Bool b) = b"
| "truthy (Num n) = (n \<noteq> 0)"
| "truthy (Str s) = (s \<noteq> [])"

text \<open>\<open>wcNode.CONNECT_RESULT\<close> and \<open>wcNode.LINK_TYPE\<close>.\<close>

datatype connect_result = NOT_FOUND | ALREADY_CONNECTED | SUCCESS

datatype link_type = ENTRY | EXIT | INPUT | OUTPUT

text \<open>
  Objects live in a store: a node reference is the index of the node in \<open>nodes\<close>.
  A connection record \<open>{name, node}\<close> is the pair of the target node and the target
  link name.
\<close>

type_synonym ref = "nat \<times> string"

text \<open>A flow link \<open>{name, links, meta}\<close> of \<open>chain.entry\<close> or \<open>chain.exit\<close>.\<close>

record link =
  l_name :: string
  l_links :: "ref list"
  l_flash :: bool
  l_paused :: bool

text \<open>A node property \<open>{name, value, initialValue, inputs, outputs, inputMeta, outputMeta}\<close>.\<close>

record property =
  p_name :: string
  p_value :: val
  p_initialValue :: val
  p_inputs :: "ref list"
  p_outputs :: "ref list"
  p_inFlash :: bool
  p_inPaused :: bool
  p_outFlash :: bool
  p_outPaused :: bool

text \<open>The node classes of the bundle; \<open>WcNode\<close> is the foundation class.\<close>

datatype node_class =
    WcNode | WcNodeEntry | WcNodeProcess | WcNodeStorage
  | WcNodeEntryStart | WcNodeProcessDelay | WcNodeProcessConsoleLog | WcNodeProcessAlert
  | WcNodeProcessOperation | WcNodeStorageToggle | WcNodeStorageNumber | WcNodeStorageString

record node =
  n_class :: node_class
  n_entry :: "link list"
  n_exit :: "link list"
  n_properties :: "property list"
  n_flash :: bool
  n_paused :: bool
  n_awake :: bool
  n_threads :: "val list"
  n_break :: bool
  n_hasEngine :: bool

text \<open>A script-level property of the engine.\<close>

record gproperty =
  g_name :: string
  g_value :: val
  g_initialValue :: val

text \<open>
  The engine \<open>wcPlay\<close> together with the node objects it (and its links) refer to.
  \<open>timers\<close> is the set of host timers that are still to fire (\<open>setTimeout\<close> adds one,
  \<open>clearTimeout\<close> removes it); \<open>updateLimit\<close> is a natural number.
\<close>

record world =
  nodes :: "node list"
  entryNodes :: "nat list"
  processNodes :: "nat list"
  compositeNodes :: "nat list"
  storageNodes :: "nat list"
  properties :: "gproperty list"
  queuedChain :: "(nat \<times> string) list"
  queuedProperties :: "(nat \<times> string \<times> val) list"
  isPaused :: bool
  isStepping :: bool
  silent :: bool
  debugging :: bool
  updateLimit :: nat
  timers :: "int list"
  nextTimer :: int

section \<open>Store access\<close>

definition node_at :: "world \<Rightarrow> nat \<Rightarrow> node option" where
  "node_at w i = (if i < length (nodes w) then Some (nodes w ! i) else None)"

definition upd_node :: "nat \<Rightarrow> (node \<Rightarrow> node) \<Rightarrow> world \<Rightarrow> world" where
  "upd_node i f w = (if i < length (nodes w) then w\<lparr>nodes := (nodes w)[i := f (nodes w ! i)]\<rparr> else w)"

text \<open>
  The loops \<open>for (i ...) if (xs[i].name === name) { ...; break; }\<close> act on the first
  element that matches.
\<close>

fun upd_first :: "('a \<Rightarrow> bool) \<Rightarrow> ('a \<Rightarrow> 'a) \<Rightarrow> 'a list \<Rightarrow> 'a list" where
  "upd_first P f [] = []"
| "upd_first P f (x # xs) = (if P x then f x # xs else x # upd_first P f xs)"

definition find_prop :: "world \<Rightarrow> nat \<Rightarrow> string \<Rightarrow> property option" where
  "find_prop w this name =
     (case node_at w this of None \<Rightarrow> None
      | Some n \<Rightarrow> find (\<lambda>p. p_name p = name) (n_properties n))"

definition upd_prop :: "nat \<Rightarrow> string \<Rightarrow> (property \<Rightarrow> property) \<Rightarrow> world \<Rightarrow> world" where
  "upd_prop this name f w =
     upd_node this (\<lambda>n. n\<lparr>n_properties := upd_first (\<lambda>p. p_name p = name) f (n_properties n)\<rparr>) w"

section \<open>The engine: script-level properties\<close>

text \<open>
  \<open>wcPlay.property(name, value)\<close>: the function has no \<open>return\<close> with a value, so the
  call evaluates to \<open>undefined\<close>. No node class of the bundle defines
  \<open>onSharedPropertyChanged\<close>, so \<open>__notifyNodes\<close> calls nothing.
\<close>

definition wcPlay_property :: "world \<Rightarrow> string \<Rightarrow> val \<Rightarrow> val \<times> world" where
  "wcPlay_property w name value =
     (case find (\<lambda>p. g_name p = name) (properties w) of
        None \<Rightarrow> (Undefined, w)
      | Some prop \<Rightarrow>
          if value \<noteq> Undefined \<and> value \<noteq> g_value prop
          then (Undefined,
                w\<lparr>properties := upd_first (\<lambda>p. g_name p = name) (\<lambda>p. p\<lparr>g_value := value\<rparr>) (properties w)\<rparr>)
          else (Undefined, w))"

text \<open>\<open>wcPlay.initialProperty(name, value)\<close>.\<close>

definition wcPlay_initialProperty :: "world \<Rightarrow> string \<Rightarrow> val \<Rightarrow> val \<times> world" where
  "wcPlay_initialProperty w name value =
     (case find (\<lambda>p. g_name p = name) (properties w) of
        None \<Rightarrow> (Undefined, w)
      | Some prop \<Rightarrow>
          if value \<noteq> Undefined \<and> value \<noteq> g_initialValue prop
          then (let oldValue = g_initialValue prop;
                    prop1 = prop\<lparr>g_initialValue := value\<rparr>;
                    prop2 = (if g_value prop1 = oldValue then prop1\<lparr>g_value := value\<rparr> else prop1)
                in (Undefined,
                    w\<lparr>properties := upd_first (\<lambda>p. g_name p = name) (\<lambda>p. prop2) (properties w)\<rparr>))
          else (Undefined, w))"

section \<open>The node: state queries\<close>

text \<open>
  \<open>wcNode.engine()\<close> walks the parents up to the engine; \<open>n_hasEngine\<close> records whether
  it finds one. \<open>enabled()\<close> and \<open>debugBreak()\<close> without an argument.
\<close>

definition engine :: "world \<Rightarrow> nat \<Rightarrow> bool" where
  "engine w this = (case node_at w this of None \<Rightarrow> False | Some n \<Rightarrow> n_hasEngine n)"

definition property_get :: "world \<Rightarrow> nat \<Rightarrow> string \<Rightarrow> val" where
  "property_get w this name =
     (case find_prop w this name of None \<Rightarrow> Undefined | Some prop \<Rightarrow> p_value prop)"

definition enabled :: "world \<Rightarrow> nat \<Rightarrow> val" where
  "enabled w this = property_get w this ''enabled''"

definition debugBreak :: "world \<Rightarrow> nat \<Rightarrow> bool" where
  "debugBreak w this =
     (case node_at w this of None \<Rightarrow> False
      | Some n \<Rightarrow> n_hasEngine n \<and> debugging w \<and> n_break n)"

section \<open>The engine: queueing\<close>

text \<open>\<open>wcPlay.queueNodeEntry(node, name)\<close> and \<open>wcPlay.queueNodeProperty(node, name, value)\<close>.\<close>

definition mark_paused :: "nat \<Rightarrow> world \<Rightarrow> world" where
  "mark_paused node w =
     (if debugBreak w node \<or> isStepping w
      then (upd_node node (\<lambda>n. n\<lparr>n_flash := True, n_paused := True\<rparr>) w)\<lparr>isPaused := True\<rparr>
      else w)"

definition queueNodeEntry :: "nat \<Rightarrow> string \<Rightarrow> world \<Rightarrow> world" where
  "queueNodeEntry node name w =
     (if truthy (enabled w node)
      then mark_paused node (w\<lparr>queuedChain := queuedChain w @ [(node, name)]\<rparr>)
      else w)"

definition queueNodeProperty :: "nat \<Rightarrow> string \<Rightarrow> val \<Rightarrow> world \<Rightarrow> world" where
  "queueNodeProperty node name value w =
     (if truthy (enabled w node)
      then mark_paused node (w\<lparr>queuedProperties := queuedProperties w @ [(node, name, value)]\<rparr>)
      else w)"

section \<open>The node: triggers and property propagation\<close>

text \<open>\<open>wcNode.triggerEntry(name)\<close>: the first entry link of that name is flagged and queued.\<close>

definition triggerEntry :: "nat \<Rightarrow> string \<Rightarrow> world \<Rightarrow> bool \<times> world" where
  "triggerEntry this name w =
     (case node_at w this of None \<Rightarrow> (False, w)
      | Some n \<Rightarrow>
         (case find (\<lambda>l. l_name l = name) (n_entry n) of
            None \<Rightarrow> (False, w)
          | Some l \<Rightarrow>
             (let pause = (debugBreak w this \<or> (engine w this \<and> isStepping w));
                  w1 = upd_node this (\<lambda>n. n\<lparr>n_entry := upd_first (\<lambda>l. l_name l = name)
                         (\<lambda>l. l\<lparr>l_flash := True, l_paused := (pause \<or> l_paused l)\<rparr>) (n_entry n)\<rparr>) w;
                  w2 = (if engine w1 this then queueNodeEntry this (l_name l) w1 else w1)
              in (True, w2))))"

text \<open>
  \<open>wcNode.triggerProperty(name, value)\<close>: queue the update, then flag every property of
  that name.
\<close>

definition triggerProperty :: "nat \<Rightarrow> string \<Rightarrow> val \<Rightarrow> world \<Rightarrow> world" where
  "triggerProperty this name value w =
     (let w1 = (if engine w this then queueNodeProperty this name value w else w);
          pause = (debugBreak w1 this \<or> (engine w1 this \<and> isStepping w1))
      in upd_node this (\<lambda>n. n\<lparr>n_properties :=
           map (\<lambda>p. if p_name p = name then p\<lparr>p_inFlash := True, p_inPaused := (pause \<or> p_inPaused p)\<rparr> else p)
               (n_properties n)\<rparr>) w1)"

text \<open>The fan-out loop over \<open>prop.outputs\<close> in \<open>wcNode.property\<close>.\<close>

fun fan_out :: "ref list \<Rightarrow> val \<Rightarrow> world \<Rightarrow> world" where
  "fan_out [] value w = w"
| "fan_out ((node, name) # outs) value w = fan_out outs value (triggerProperty node name value w)"

text \<open>
  \<open>wcNode.property(name, value, forceOrSilent)\<close>. The hooks \<open>onPropertyChanging\<close> and
  \<open>onPropertyChanged\<close> are the ones of \<open>wcNode\<close>, which no class of the bundle overrides: the
  first returns nothing, so the proposed value stands, the second only logs.
\<close>

definition wcNode_property :: "nat \<Rightarrow> string \<Rightarrow> val \<Rightarrow> val \<Rightarrow> world \<Rightarrow> val \<times> world" where
  "wcNode_property this name value forceOrSilent w =
     (case find_prop w this name of
        None \<Rightarrow> (Undefined, w)
      | Some prop \<Rightarrow>
          if value \<noteq> Undefined then
            (let pause = (debugBreak w this \<or> (engine w this \<and> isStepping w));
                 w1 = upd_prop this name
                        (\<lambda>p. p\<lparr>p_outFlash := True, p_outPaused := (pause \<or> p_outPaused p)\<rparr>) w
             in if truthy forceOrSilent \<or> p_value prop \<noteq> value then
                  (let w2 = upd_prop this name (\<lambda>p. p\<lparr>p_value := value\<rparr>) w1;
                       w3 = (if forceOrSilent = Undefined \<or> truthy forceOrSilent
                             then fan_out (p_outputs prop) value w2 else w2)
                   in (property_get w3 this name, w3))
                else (p_value prop, w1))
          else (p_value prop, w))"


section \<open>Links\<close>

text \<open>
  The four kinds of link ends are handled by the same code in the source, once per kind:
  \<open>chain.entry[..].links\<close>, \<open>chain.exit[..].links\<close>, \<open>properties[..].inputs\<close> and
  \<open>properties[..].outputs\<close>. \<open>get_links\<close> reads the connection array of the first
  link (or property) of a name, \<open>put_links\<close> writes it.
\<close>

definition get_links :: "link_type \<Rightarrow> world \<Rightarrow> nat \<Rightarrow> string \<Rightarrow> ref list option" where
  "get_links t w this name =
     (case node_at w this of None \<Rightarrow> None
      | Some n \<Rightarrow>
         (case t of
            ENTRY \<Rightarrow> map_option l_links (find (\<lambda>l. l_name l = name) (n_entry n))
          | EXIT \<Rightarrow> map_option l_links (find (\<lambda>l. l_name l = name) (n_exit n))
          | INPUT \<Rightarrow> map_option p_inputs (find (\<lambda>p. p_name p = name) (n_properties n))
          | OUTPUT \<Rightarrow> map_option p_outputs (find (\<lambda>p. p_name p = name) (n_properties n))))"

definition put_links :: "link_type \<Rightarrow> nat \<Rightarrow> string \<Rightarrow> ref list \<Rightarrow> world \<Rightarrow> world" where
  "put_links t this name ls w =
     upd_node this (\<lambda>n.
       (case t of
          ENTRY \<Rightarrow> n\<lparr>n_entry := upd_first (\<lambda>l. l_name l = name) (\<lambda>l. l\<lparr>l_links := ls\<rparr>) (n_entry n)\<rparr>
        | EXIT \<Rightarrow> n\<lparr>n_exit := upd_first (\<lambda>l. l_name l = name) (\<lambda>l. l\<lparr>l_links := ls\<rparr>) (n_exit n)\<rparr>
        | INPUT \<Rightarrow> n\<lparr>n_properties := upd_first (\<lambda>p. p_name p = name) (\<lambda>p. p\<lparr>p_inputs := ls\<rparr>) (n_properties n)\<rparr>
        | OUTPUT \<Rightarrow> n\<lparr>n_properties := upd_first (\<lambda>p. p_name p = name) (\<lambda>p. p\<lparr>p_outputs := ls\<rparr>) (n_properties n)\<rparr>)) w"

fun opposite :: "link_type \<Rightarrow> link_type" where
  "opposite ENTRY = EXIT"
| "opposite EXIT = ENTRY"
| "opposite INPUT = OUTPUT"
| "opposite OUTPUT = INPUT"

text \<open>
  The filter of the disconnect loops:
  \<open>(!targetNode || targetNode === targetLink.node) && (!targetName || targetName === targetLink.name)\<close>.
  A node object is never falsy; the empty string is.
\<close>

definition selected :: "nat option \<Rightarrow> string option \<Rightarrow> ref \<Rightarrow> bool" where
  "selected targetNode targetName targetLink =
     ((targetNode = None \<or> targetNode = Some (fst targetLink)) \<and>
      (targetName = None \<or> targetName = Some [] \<or> targetName = Some (snd targetLink)))"

text \<open>
  The loop of \<open>disconnectEntry\<close>, \<open>disconnectExit\<close>, \<open>disconnectInput\<close> and
  \<open>disconnectOutput\<close>, from index \<open>i\<close> on. The array is read anew in every round,
  since the call into the target node may come back and change it. After
  \<open>splice(i, 1); i--\<close> the next round looks at index \<open>i\<close> again. The call into the
  target returns at once when the target has no link of that name.
\<close>

function disc_loop :: "link_type \<Rightarrow> nat \<Rightarrow> string \<Rightarrow> nat option \<Rightarrow> string option \<Rightarrow> nat \<Rightarrow> world \<Rightarrow> world" where
  "disc_loop t this name targetNode targetName i w =
     (case get_links t w this name of
        None \<Rightarrow> w
      | Some ls \<Rightarrow>
          if i < length ls then
            (if selected targetNode targetName (ls ! i) then
               disc_loop t this name targetNode targetName i
                 (disc_loop (opposite t) (fst (ls ! i)) (snd (ls ! i)) (Some this) (Some name) 0
                    (put_links t this name (take i ls @ drop (Suc i) ls) w))
             else disc_loop t this name targetNode targetName (Suc i) w)
          else w)"
  by pat_completeness auto


text \<open>Termination: every round either removes a connection record or moves on in the array.\<close>

definition node_links :: "node \<Rightarrow> nat" where
  "node_links n =
     sum_list (map (\<lambda>l. length (l_links l)) (n_entry n)) +
     sum_list (map (\<lambda>l. length (l_links l)) (n_exit n)) +
     sum_list (map (\<lambda>p. length (p_inputs p) + length (p_outputs p)) (n_properties n))"

definition total_links :: "world \<Rightarrow> nat" where
  "total_links w = sum_list (map node_links (nodes w))"

lemma upd_first_sum:
  "find P xs = Some x \<Longrightarrow>
   sum_list (map g (upd_first P f xs)) + g x = sum_list (map g xs) + (g (f x) :: nat)"
  by (induction xs) (auto split: if_splits)

lemma sum_list_map_update:
  "i < length xs \<Longrightarrow>
   sum_list (map g (xs[i := y])) + g (xs ! i) = sum_list (map g xs) + (g y :: nat)"
proof (induction xs arbitrary: i)
  case Nil
  then show ?case by simp
next
  case (Cons x xs)
  then show ?case by (cases i) auto
qed

lemma node_links_put:
  assumes "get_links t w this name = Some ls"
  shows "total_links (put_links t this name ls' w) + length ls = total_links w + length ls'"
proof -
  from assms obtain n where n: "node_at w this = Some n"
    by (auto simp: get_links_def split: option.splits)
  then have lt: "this < length (nodes w)" and nn: "nodes w ! this = n"
    by (auto simp: node_at_def split: if_splits)
  define f where "f = (\<lambda>n::node.
       (case t of
          ENTRY \<Rightarrow> n\<lparr>n_entry := upd_first (\<lambda>l. l_name l = name) (\<lambda>l. l\<lparr>l_links := ls'\<rparr>) (n_entry n)\<rparr>
        | EXIT \<Rightarrow> n\<lparr>n_exit := upd_first (\<lambda>l. l_name l = name) (\<lambda>l. l\<lparr>l_links := ls'\<rparr>) (n_exit n)\<rparr>
        | INPUT \<Rightarrow> n\<lparr>n_properties := upd_first (\<lambda>p. p_name p = name) (\<lambda>p. p\<lparr>p_inputs := ls'\<rparr>) (n_properties n)\<rparr>
        | OUTPUT \<Rightarrow> n\<lparr>n_properties := upd_first (\<lambda>p. p_name p = name) (\<lambda>p. p\<lparr>p_outputs := ls'\<rparr>) (n_properties n)\<rparr>))"
  have nl: "node_links (f n) + length ls = node_links n + length ls'"
  proof (cases t)
    case ENTRY
    with assms n obtain l where l: "find (\<lambda>l. l_name l = name) (n_entry n) = Some l" "l_links l = ls"
      by (auto simp: get_links_def)
    from upd_first_sum[OF l(1), of "\<lambda>l. length (l_links l)" "\<lambda>l. l\<lparr>l_links := ls'\<rparr>"] l(2) ENTRY
    show ?thesis by (simp add: f_def node_links_def)
  next
    case EXIT
    with assms n obtain l where l: "find (\<lambda>l. l_name l = name) (n_exit n) = Some l" "l_links l = ls"
      by (auto simp: get_links_def)
    from upd_first_sum[OF l(1), of "\<lambda>l. length (l_links l)" "\<lambda>l. l\<lparr>l_links := ls'\<rparr>"] l(2) EXIT
    show ?thesis by (simp add: f_def node_links_def)
  next
    case INPUT
    with assms n obtain p where p: "find (\<lambda>p. p_name p = name) (n_properties n) = Some p" "p_inputs p = ls"
      by (auto simp: get_links_def)
    from upd_first_sum[OF p(1), of "\<lambda>p. length (p_inputs p) + length (p_outputs p)" "\<lambda>p. p\<lparr>p_inputs := ls'\<rparr>"] p(2) INPUT
    show ?thesis by (simp add: f_def node_links_def)
  next
    case OUTPUT
    with assms n obtain p where p: "find (\<lambda>p. p_name p = name) (n_properties n) = Some p" "p_outputs p = ls"
      by (auto simp: get_links_def)
    from upd_first_sum[OF p(1), of "\<lambda>p. length (p_inputs p) + length (p_outputs p)" "\<lambda>p. p\<lparr>p_outputs := ls'\<rparr>"] p(2) OUTPUT
    show ?thesis by (simp add: f_def node_links_def)
  qed
  have "put_links t this name ls' w = w\<lparr>nodes := (nodes w)[this := f n]\<rparr>"
    using lt unfolding nn[symmetric] by (simp add: put_links_def upd_node_def f_def)
  then have "total_links (put_links t this name ls' w) + node_links n = total_links w + node_links (f n)"
    using sum_list_map_update[OF lt, of node_links "f n"] nn by (simp add: total_links_def)
  with nl show ?thesis by linarith
qed

lemma total_links_remove:
  assumes "get_links t w this name = Some ls" and "i < length ls"
  shows "total_links (put_links t this name (take i ls @ drop (Suc i) ls) w) < total_links w"
proof -
  have "length (take i ls @ drop (Suc i) ls) < length ls"
    using assms(2) by simp
  with node_links_put[OF assms(1), of "take i ls @ drop (Suc i) ls"] show ?thesis
    by linarith
qed

lemma disc_loop_total_links:
  "disc_loop_dom (t, this, name, targetNode, targetName, i, w) \<Longrightarrow>
   total_links (disc_loop t this name targetNode targetName i w) \<le> total_links w"
proof (induction t this name targetNode targetName i w rule: disc_loop.pinduct)
  case (1 t this name targetNode targetName i w)
  show ?case
  proof (cases "get_links t w this name")
    case None
    with 1(1) show ?thesis by (simp add: disc_loop.psimps)
  next
    case (Some ls)
    show ?thesis
    proof (cases "i < length ls")
      case False
      with Some 1(1) show ?thesis by (simp add: disc_loop.psimps)
    next
      case True
      show ?thesis
      proof (cases "selected targetNode targetName (ls ! i)")
        case False
        with Some True 1(1) 1(4)[OF Some True False] show ?thesis
          by (simp add: disc_loop.psimps)
      next
        case sel: True
        have a: "total_links (put_links t this name (take i ls @ drop (Suc i) ls) w) < total_links w"
          by (rule total_links_remove[OF Some True])
        from 1(2)[OF Some True sel] 1(3)[OF Some True sel] a Some True sel 1(1)
        show ?thesis by (simp add: disc_loop.psimps)
      qed
    qed
  qed
qed

termination disc_loop
proof (relation "inv_image (less_than <*lex*> less_than)
         (\<lambda>(t, this, name, targetNode, targetName, i, w).
            (total_links w, (case get_links t w this name of None \<Rightarrow> 0 | Some ls \<Rightarrow> length ls - i)))",
       goal_cases)
  case 1
  show ?case by (intro wf_inv_image wf_lex_prod wf_less_than)
next
  case (2 t this name targetNode targetName i w ls)
  then show ?case by (simp add: total_links_remove)
next
  case (3 t this name targetNode targetName i w ls)
  have "total_links (put_links t this name (take i ls @ drop (Suc i) ls) w) < total_links w"
    using 3(1,2) by (rule total_links_remove)
  with disc_loop_total_links[OF 3(4)] show ?case by simp
next
  case (4 t this name targetNode targetName i w ls)
  then show ?case by simp
qed

declare disc_loop.simps [simp del]


section \<open>The node: connecting and disconnecting\<close>

text \<open>
  \<open>wcNode.onConnect\<close>, which no class of the bundle overrides: a new output connection
  sends the current value to the other end.
\<close>

definition onConnect ::
  "nat \<Rightarrow> bool \<Rightarrow> string \<Rightarrow> link_type \<Rightarrow> nat \<Rightarrow> string \<Rightarrow> link_type \<Rightarrow> world \<Rightarrow> world" where
  "onConnect this isConnecting name type targetNode targetName targetType w =
     (if isConnecting \<and> type = OUTPUT
      then triggerProperty targetNode targetName (property_get w this name) w
      else w)"

definition push_link :: "link_type \<Rightarrow> nat \<Rightarrow> string \<Rightarrow> ref \<Rightarrow> world \<Rightarrow> world" where
  "push_link t this name r w =
     (case get_links t w this name of None \<Rightarrow> w | Some ls \<Rightarrow> put_links t this name (ls @ [r]) w)"

text \<open>
  \<open>connectEntry\<close>, \<open>connectExit\<close>, \<open>connectInput\<close> and \<open>connectOutput\<close> are the same
  function up to the kind of the two link ends.
\<close>

definition connect ::
  "link_type \<Rightarrow> nat \<Rightarrow> string \<Rightarrow> nat \<Rightarrow> string \<Rightarrow> world \<Rightarrow> connect_result \<times> world" where
  "connect t this name targetNode targetName w =
     (if node_at w targetNode = None then (NOT_FOUND, w)
      else
        (case get_links t w this name of
           None \<Rightarrow> (NOT_FOUND, w)
         | Some myLinks \<Rightarrow>
            (case get_links (opposite t) w targetNode targetName of
               None \<Rightarrow> (NOT_FOUND, w)
             | Some targetLinks \<Rightarrow>
                 if (targetNode, targetName) \<in> set myLinks then (ALREADY_CONNECTED, w)
                 else if (this, name) \<in> set targetLinks then (ALREADY_CONNECTED, w)
                 else
                   (let w1 = push_link t this name (targetNode, targetName) w;
                        w2 = push_link (opposite t) targetNode targetName (this, name) w1;
                        w3 = onConnect this True name t targetNode targetName (opposite t) w2;
                        w4 = onConnect targetNode True targetName (opposite t) this name t w3
                    in (SUCCESS, w4)))))"

definition connectEntry :: "nat \<Rightarrow> string \<Rightarrow> nat \<Rightarrow> string \<Rightarrow> world \<Rightarrow> connect_result \<times> world" where
  "connectEntry = connect ENTRY"

definition connectExit :: "nat \<Rightarrow> string \<Rightarrow> nat \<Rightarrow> string \<Rightarrow> world \<Rightarrow> connect_result \<times> world" where
  "connectExit = connect EXIT"

definition connectInput :: "nat \<Rightarrow> string \<Rightarrow> nat \<Rightarrow> string \<Rightarrow> world \<Rightarrow> connect_result \<times> world" where
  "connectInput = connect INPUT"

definition connectOutput :: "nat \<Rightarrow> string \<Rightarrow> nat \<Rightarrow> string \<Rightarrow> world \<Rightarrow> connect_result \<times> world" where
  "connectOutput = connect OUTPUT"

text \<open>The four disconnect functions: find the link, then run the loop from index 0.\<close>

definition disconnect ::
  "link_type \<Rightarrow> nat \<Rightarrow> string \<Rightarrow> nat option \<Rightarrow> string option \<Rightarrow> world \<Rightarrow> connect_result \<times> world" where
  "disconnect t this name targetNode targetName w =
     (case get_links t w this name of
        None \<Rightarrow> (NOT_FOUND, w)
      | Some ls \<Rightarrow> (SUCCESS, disc_loop t this name targetNode targetName 0 w))"

definition disconnectEntry ::
  "nat \<Rightarrow> string \<Rightarrow> nat option \<Rightarrow> string option \<Rightarrow> world \<Rightarrow> connect_result \<times> world" where
  "disconnectEntry = disconnect ENTRY"

definition disconnectExit ::
  "nat \<Rightarrow> string \<Rightarrow> nat option \<Rightarrow> string option \<Rightarrow> world \<Rightarrow> connect_result \<times> world" where
  "disconnectExit = disconnect EXIT"

definition disconnectInput ::
  "nat \<Rightarrow> string \<Rightarrow> nat option \<Rightarrow> string option \<Rightarrow> world \<Rightarrow> connect_result \<times> world" where
  "disconnectInput = disconnect INPUT"

definition disconnectOutput ::
  "nat \<Rightarrow> string \<Rightarrow> nat option \<Rightarrow> string option \<Rightarrow> world \<Rightarrow> connect_result \<times> world" where
  "disconnectOutput = disconnect OUTPUT"

section \<open>The node: removing links and properties\<close>

text \<open>\<open>xs.splice(i, 1)\<close>.\<close>

definition splice1 :: "nat \<Rightarrow> 'a list \<Rightarrow> 'a list" where
  "splice1 i xs = take i xs @ drop (Suc i) xs"

text \<open>
  \<open>wcNode.removeEntry(name)\<close>: the loop over \<open>chain.entry\<close>, at index \<open>i\<close> with the
  entries from \<open>i\<close> on still to visit.
\<close>

fun removeEntry_loop :: "nat \<Rightarrow> string \<Rightarrow> nat \<Rightarrow> link list \<Rightarrow> world \<Rightarrow> bool \<times> world" where
  "removeEntry_loop this name i [] w = (False, w)"
| "removeEntry_loop this name i (l # ls) w =
     (if l_name l = name then
        (case disconnectEntry this name None None w of
           (r, w1) \<Rightarrow>
             if r = SUCCESS
             then (True, upd_node this (\<lambda>n. n\<lparr>n_entry := splice1 i (n_entry n)\<rparr>) w1)
             else removeEntry_loop this name (Suc i) ls w1)
      else removeEntry_loop this name (Suc i) ls w)"

definition removeEntry :: "nat \<Rightarrow> string \<Rightarrow> world \<Rightarrow> bool \<times> world" where
  "removeEntry this name w =
     (case node_at w this of None \<Rightarrow> (False, w)
      | Some n \<Rightarrow> removeEntry_loop this name 0 (n_entry n) w)"

text \<open>
  \<open>wcNode.removeProperty(name)\<close>. Its condition is
  \<open>this.disconnectInput(name) === this.disconnectOutput(name) === wcNode.CONNECT_RESULT.SUCCESS\<close>,
  which JavaScript reads from the left: the two results are compared, and the boolean of
  that comparison is compared with the string \<open>'success'\<close>. \<open>js\<close> injects the two types
  into one, on which \<open>===\<close> is equality.
\<close>

datatype js = JBool bool | JResult connect_result

fun removeProperty_loop :: "nat \<Rightarrow> string \<Rightarrow> nat \<Rightarrow> property list \<Rightarrow> world \<Rightarrow> bool \<times> world" where
  "removeProperty_loop this name i [] w = (False, w)"
| "removeProperty_loop this name i (p # ps) w =
     (if p_name p = name then
        (case disconnectInput this name None None w of
           (r1, w1) \<Rightarrow>
             (case disconnectOutput this name None None w1 of
                (r2, w2) \<Rightarrow>
                  if JBool (JResult r1 = JResult r2) = JResult SUCCESS
                  then (True, upd_node this (\<lambda>n. n\<lparr>n_properties := splice1 i (n_properties n)\<rparr>) w2)
                  else removeProperty_loop this name (Suc i) ps w2))
      else removeProperty_loop this name (Suc i) ps w)"

definition removeProperty :: "nat \<Rightarrow> string \<Rightarrow> world \<Rightarrow> bool \<times> world" where
  "removeProperty this name w =
     (case node_at w this of None \<Rightarrow> (False, w)
      | Some n \<Rightarrow> removeProperty_loop this name 0 (n_properties n) w)"

section \<open>The node: initial values\<close>

text \<open>
  \<open>wcNode.initialValue(name, value)\<close> of \<open>Code/nodes/node.js\<close>: every property of that
  name gets the value; nothing is returned.
\<close>

definition initialValue :: "nat \<Rightarrow> string \<Rightarrow> val \<Rightarrow> world \<Rightarrow> val \<times> world" where
  "initialValue this name value w =
     (Undefined,
      upd_node this (\<lambda>n. n\<lparr>n_properties :=
        map (\<lambda>p. if p_name p = name then p\<lparr>p_initialValue := value\<rparr> else p) (n_properties n)\<rparr>) w)"

text \<open>\<open>wcNode.initialProperty(name, value)\<close> of the bundle.\<close>

definition initialProperty :: "nat \<Rightarrow> string \<Rightarrow> val \<Rightarrow> world \<Rightarrow> val \<times> world" where
  "initialProperty this name value w =
     (case find_prop w this name of
        None \<Rightarrow> (Undefined, w)
      | Some prop \<Rightarrow>
          if value \<noteq> Undefined then
            (let w1 = (if p_value prop = p_initialValue prop
                       then snd (wcNode_property this name value Undefined w) else w);
                 w2 = upd_prop this name (\<lambda>p. p\<lparr>p_initialValue := value\<rparr>) w1
             in (value, w2))
          else (p_initialValue prop, w))"

section \<open>The node: threads and reset\<close>

definition clearTimeout :: "int \<Rightarrow> world \<Rightarrow> world" where
  "clearTimeout t w = w\<lparr>timers := removeAll t (timers w)\<rparr>"

fun clear_threads :: "val list \<Rightarrow> world \<Rightarrow> world" where
  "clear_threads [] w = w"
| "clear_threads (Num t # ths) w = clear_threads ths (clearTimeout t w)"
| "clear_threads (v # ths) w = clear_threads ths w"

text \<open>\<open>wcNode.beginThread(id)\<close> and \<open>wcNode.reset()\<close>.\<close>

definition beginThread :: "nat \<Rightarrow> val \<Rightarrow> world \<Rightarrow> world" where
  "beginThread this tid w = upd_node this (\<lambda>n. n\<lparr>n_threads := n_threads n @ [tid], n_awake := True\<rparr>) w"

definition reset :: "nat \<Rightarrow> world \<Rightarrow> world" where
  "reset this w =
     (case node_at w this of None \<Rightarrow> w
      | Some n \<Rightarrow>
         (let w1 = upd_node this (\<lambda>n. n\<lparr>n_properties :=
                     map (\<lambda>p. p\<lparr>p_value := p_initialValue p\<rparr>) (n_properties n)\<rparr>) w;
              w2 = clear_threads (n_threads n) w1
          in upd_node this (\<lambda>n. n\<lparr>n_threads := []\<rparr>) w2))"

section \<open>The node: handlers\<close>

text \<open>\<open>wcNode.triggerExit(name)\<close> and its loop over the connections of the exit link.\<close>

fun exit_loop :: "nat \<Rightarrow> string \<Rightarrow> ref list \<Rightarrow> world \<Rightarrow> world" where
  "exit_loop this name [] w = w"
| "exit_loop this name ((node, entryName) # links) w =
     (let w1 = snd (triggerEntry node entryName w);
          w2 = (if debugBreak w1 node \<or> (engine w1 this \<and> isStepping w1)
                then upd_node this (\<lambda>n. n\<lparr>n_exit := upd_first (\<lambda>l. l_name l = name)
                       (\<lambda>l. l\<lparr>l_paused := True\<rparr>) (n_exit n)\<rparr>) w1
                else w1)
      in exit_loop this name links w2)"

definition triggerExit :: "nat \<Rightarrow> string \<Rightarrow> world \<Rightarrow> bool \<times> world" where
  "triggerExit this name w =
     (case node_at w this of None \<Rightarrow> (False, w)
      | Some n \<Rightarrow>
         (case find (\<lambda>l. l_name l = name) (n_exit n) of
            None \<Rightarrow> (False, w)
          | Some exitLink \<Rightarrow>
             (let w1 = upd_node this (\<lambda>n. n\<lparr>n_exit := upd_first (\<lambda>l. l_name l = name)
                         (\<lambda>l. l\<lparr>l_flash := True\<rparr>) (n_exit n)\<rparr>) w
              in (True, exit_loop this name (l_links exitLink) w1))))"

text \<open>
  The arithmetic of \<open>wcNodeProcessOperation\<close>, \<open>parseFloat(a) op parseFloat(b)\<close>, is
  floating point and a parameter of the model: \<open>arith name a b\<close> is the result for the
  entry link \<open>name\<close> (one of \<open>add\<close>, \<open>sub\<close>, \<open>mul\<close>, \<open>div\<close>).
\<close>

type_synonym arith = "string \<Rightarrow> val \<Rightarrow> val \<Rightarrow> val"

text \<open>\<open>onTriggered\<close> of the classes. Console output and alerts leave no trace in the state.\<close>

definition wcNodeEntry_onTriggered :: "nat \<Rightarrow> world \<Rightarrow> world" where
  "wcNodeEntry_onTriggered this w = snd (triggerExit this ''out'' w)"

definition wcNodeProcessDelay_onTriggered :: "nat \<Rightarrow> world \<Rightarrow> world" where
  "wcNodeProcessDelay_onTriggered this w =
     (let w1 = snd (triggerExit this ''out'' w);
          t = nextTimer w1 + 1;
          w2 = w1\<lparr>timers := timers w1 @ [t], nextTimer := t\<rparr>
      in beginThread this (Num t) w2)"

definition wcNodeProcessOperation_onTriggered :: "arith \<Rightarrow> nat \<Rightarrow> string \<Rightarrow> world \<Rightarrow> world" where
  "wcNodeProcessOperation_onTriggered ar this name w =
     (let a = property_get w this ''valueA'';
          b = property_get w this ''valueB'';
          result = (if name \<in> {''add'', ''sub'', ''mul'', ''div''} then ar name a b else Undefined);
          w1 = snd (wcNode_property this ''result'' result Undefined w)
      in snd (triggerExit this ''out'' w1))"

definition class_of :: "world \<Rightarrow> nat \<Rightarrow> node_class" where
  "class_of w this = (case node_at w this of None \<Rightarrow> WcNode | Some n \<Rightarrow> n_class n)"

definition onTriggered :: "arith \<Rightarrow> nat \<Rightarrow> string \<Rightarrow> world \<Rightarrow> world" where
  "onTriggered ar this name w =
     (case class_of w this of
        WcNodeEntry \<Rightarrow> wcNodeEntry_onTriggered this w
      | WcNodeEntryStart \<Rightarrow> wcNodeEntry_onTriggered this w
      | WcNodeProcessDelay \<Rightarrow> wcNodeProcessDelay_onTriggered this w
      | WcNodeProcessConsoleLog \<Rightarrow> snd (triggerExit this ''out'' w)
      | WcNodeProcessAlert \<Rightarrow> snd (triggerExit this ''out'' w)
      | WcNodeProcessOperation \<Rightarrow> wcNodeProcessOperation_onTriggered ar this name w
      | _ \<Rightarrow> w)"



section \<open>The engine: start and update\<close>




text \<open>
  \<open>wcPlay.update()\<close>. \<open>shift()\<close> on an empty queue gives \<open>undefined\<close>, and reading
  \<open>item.node\<close> then throws. Each loop returns the items it handled, in order, next to the
  state; for a flow trigger the record holds the length of the property queue at the
  moment the trigger is taken from its queue. The first loop also returns the final value
  of the variable \<open>count\<close>, which the second loop's bound reads.
\<close>

datatype error = TypeError

datatype event = PropertyUpdate nat string val | FlowTrigger nat string nat

fun property_loop :: "nat \<Rightarrow> world \<Rightarrow> error + (event list \<times> nat \<times> world)" where
  "property_loop 0 w = Inr ([], 0, w)"
| "property_loop (Suc count) w =
     (case queuedProperties w of
        [] \<Rightarrow> Inl TypeError
      | (node, name, value) # rest \<Rightarrow>
          (let w1 = w\<lparr>queuedProperties := rest\<rparr>;
               w2 = upd_node node (\<lambda>n. n\<lparr>n_flash := True, n_paused := False\<rparr>) w1;
               w3 = snd (wcNode_property node name value Undefined w2)
           in (case property_loop count w3 of
                 Inl e \<Rightarrow> Inl e
               | Inr (evs, c, w4) \<Rightarrow> Inr (PropertyUpdate node name value # evs, c, w4))))"

fun chain_loop :: "arith \<Rightarrow> nat \<Rightarrow> world \<Rightarrow> error + (event list \<times> world)" where
  "chain_loop ar 0 w = Inr ([], w)"
| "chain_loop ar (Suc count) w =
     (case queuedChain w of
        [] \<Rightarrow> Inl TypeError
      | (node, name) # rest \<Rightarrow>
          (let pending = length (queuedProperties w);
               w1 = w\<lparr>queuedChain := rest\<rparr>;
               w2 = upd_node node (\<lambda>n. n\<lparr>n_flash := True, n_paused := False\<rparr>) w1;
               w3 = onTriggered ar node name w2
           in (case chain_loop ar count w3 of
                 Inl e \<Rightarrow> Inl e
               | Inr (evs, w4) \<Rightarrow> Inr (FlowTrigger node name pending # evs, w4))))"

definition update :: "arith \<Rightarrow> world \<Rightarrow> error + (event list \<times> world)" where
  "update ar w =
     (if isPaused w then Inr ([], w)
      else
        (case property_loop (min (length (queuedProperties w)) (updateLimit w)) w of
           Inl e \<Rightarrow> Inl e
         | Inr (evs1, count, w1) \<Rightarrow>
            (case (if queuedProperties w1 = []
                   then chain_loop ar (min (length (queuedChain w1)) (updateLimit w1 - count)) w1
                   else Inr ([], w1)) of
               Inl e \<Rightarrow> Inl e
             | Inr (evs2, w2) \<Rightarrow>
                 Inr (evs1 @ evs2, if isStepping w2 then w2\<lparr>isPaused := True\<rparr> else w2))))"

section \<open>Example scripts\<close>

text \<open>
  The constructors' defaults: a node starts with the properties \<open>enabled\<close> (true) and
  \<open>debug log\<close> (false), belongs to the engine, and has no connection; the engine starts
  with its default options (\<open>debugging: true\<close>, \<open>updateLimit: 100\<close>).
\<close>

definition mk_property :: "string \<Rightarrow> val \<Rightarrow> property" where
  "mk_property name v =
     \<lparr>p_name = name, p_value = v, p_initialValue = v, p_inputs = [], p_outputs = [],
      p_inFlash = False, p_inPaused = False, p_outFlash = False, p_outPaused = False\<rparr>"

definition mk_link :: "string \<Rightarrow> link" where
  "mk_link name = \<lparr>l_name = name, l_links = [], l_flash = False, l_paused = False\<rparr>"

definition mk_node :: "node_class \<Rightarrow> link list \<Rightarrow> link list \<Rightarrow> property list \<Rightarrow> node" where
  "mk_node c ins outs ps =
     \<lparr>n_class = c, n_entry = ins, n_exit = outs,
      n_properties = mk_property ''enabled'' (Bool True) # mk_property ''debug log'' (Bool False) # ps,
      n_flash = False, n_paused = False, n_awake = False, n_threads = [], n_break = False,
      n_hasEngine = True\<rparr>"

definition mk_world :: "node list \<Rightarrow> world" where
  "mk_world ns =
     \<lparr>nodes = ns, entryNodes = [], processNodes = [], compositeNodes = [], storageNodes = [],
      properties = [], queuedChain = [], queuedProperties = [], isPaused = False,
      isStepping = False, silent = False, debugging = True, updateLimit = 100, timers = [],
      nextTimer = 0\<rparr>"

lemmas mk_defs = mk_world_def mk_node_def mk_link_def mk_property_def

text \<open>A process node with one more property \<open>p\<close>, registered with the engine.\<close>

definition one_process :: world where
  "one_process =
     (mk_world [mk_node WcNodeProcess [mk_link ''in''] [mk_link ''out''] [mk_property ''p'' (Num 0)]])
       \<lparr>processNodes := [0]\<rparr>"

section \<open>Frame lemmas\<close>

lemma node_at_upd_node:
  "node_at (upd_node i f w) j = (if i = j then map_option f (node_at w j) else node_at w j)"
  by (simp add: node_at_def upd_node_def)

lemma upd_node_fields [simp]:
  "queuedChain (upd_node i f w) = queuedChain w"
  "queuedProperties (upd_node i f w) = queuedProperties w"
  "isPaused (upd_node i f w) = isPaused w"
  "isStepping (upd_node i f w) = isStepping w"
  "debugging (upd_node i f w) = debugging w"
  "updateLimit (upd_node i f w) = updateLimit w"
  "properties (upd_node i f w) = properties w"
  "timers (upd_node i f w) = timers w"
  "length (nodes (upd_node i f w)) = length (nodes w)"
  by (simp_all add: upd_node_def)

lemma enabled_upd_node:
  "(\<And>n. n_properties (f n) = n_properties n) \<Longrightarrow> enabled (upd_node i f w) j = enabled w j"
  by (auto simp: enabled_def property_get_def find_prop_def node_at_upd_node split: option.splits)

lemma engine_upd_node:
  "(\<And>n. n_hasEngine (f n) = n_hasEngine n) \<Longrightarrow> engine (upd_node i f w) j = engine w j"
  by (auto simp: engine_def node_at_upd_node split: option.splits)

lemma debugBreak_upd_node:
  "(\<And>n. n_hasEngine (f n) = n_hasEngine n) \<Longrightarrow> (\<And>n. n_break (f n) = n_break n) \<Longrightarrow>
   debugBreak (upd_node i f w) j = debugBreak w j"
  by (auto simp: debugBreak_def node_at_upd_node split: option.splits)

lemma queue_update_queries [simp]:
  "debugBreak (w\<lparr>queuedChain := qc\<rparr>) node = debugBreak w node"
  "debugBreak (w\<lparr>queuedProperties := qp\<rparr>) node = debugBreak w node"
  "enabled (w\<lparr>queuedChain := qc\<rparr>) node = enabled w node"
  "enabled (w\<lparr>queuedProperties := qp\<rparr>) node = enabled w node"
  "engine (w\<lparr>queuedChain := qc\<rparr>) node = engine w node"
  "engine (w\<lparr>queuedProperties := qp\<rparr>) node = engine w node"
  by (simp_all add: debugBreak_def enabled_def engine_def property_get_def find_prop_def node_at_def)

lemma isPaused_queueNodeEntry:
  "isPaused (queueNodeEntry node name w) =
     (isPaused w \<or> (truthy (enabled w node) \<and> (debugBreak w node \<or> isStepping w)))"
  by (simp add: queueNodeEntry_def mark_paused_def)

lemma queuedChain_queueNodeEntry:
  "queuedChain (queueNodeEntry node name w) =
     queuedChain w @ (if truthy (enabled w node) then [(node, name)] else [])"
  by (simp add: queueNodeEntry_def mark_paused_def)

section \<open>The script-level getter\<close>

text \<open>
  C10. \<open>wcPlay.property(name)\<close> evaluates to \<open>undefined\<close> whatever the engine holds under
  that name (and whatever value is passed), and without a value it changes nothing; the
  node-level \<open>property(name)\<close> returns the stored value of the property.
\<close>

theorem wcPlay_property_returns_undefined:
  "fst (wcPlay_property w name value) = Undefined
   \<and> snd (wcPlay_property w name Undefined) = w
   \<and> fst (wcNode_property this pname Undefined forceOrSilent w) = property_get w this pname"
  by (simp add: wcPlay_property_def wcNode_property_def property_get_def split: option.split)

section \<open>Disabled nodes\<close>

text \<open>
  C6, amended. For a node whose \<open>enabled\<close> property is \<open>false\<close>, \<open>queueNodeEntry\<close>
  and \<open>queueNodeProperty\<close> leave the engine as it is, and \<open>triggerEntry\<close> and
  \<open>triggerProperty\<close> (the receiving end of a property propagation) leave both queues
  as they are: nothing new is queued for a disabled node. Nothing is said of what the
  queues hold already.
\<close>

theorem disabled_node_is_not_queued:
  assumes "enabled w node = Bool False"
  shows "queueNodeEntry node name w = w
       \<and> queueNodeProperty node name value w = w
       \<and> queuedChain (snd (triggerEntry node name w)) = queuedChain w
       \<and> queuedProperties (snd (triggerEntry node name w)) = queuedProperties w
       \<and> queuedChain (triggerProperty node name value w) = queuedChain w
       \<and> queuedProperties (triggerProperty node name value w) = queuedProperties w"
proof -
  have q1: "queueNodeEntry node name w = w"
    using assms by (simp add: queueNodeEntry_def)
  have q2: "queueNodeProperty node name value w = w"
    using assms by (simp add: queueNodeProperty_def)
  have q3: "queueNodeEntry node l w1 = w1"
    if "w1 = upd_node node (\<lambda>n. n\<lparr>n_entry := g n\<rparr>) w" for w1 l g
    using assms that by (simp add: queueNodeEntry_def enabled_upd_node)
  have t1: "queuedChain (snd (triggerEntry node name w)) = queuedChain w
          \<and> queuedProperties (snd (triggerEntry node name w)) = queuedProperties w"
    by (simp add: triggerEntry_def Let_def q3 split: option.split)
  have t2: "queuedChain (triggerProperty node name value w) = queuedChain w
          \<and> queuedProperties (triggerProperty node name value w) = queuedProperties w"
    by (simp add: triggerProperty_def Let_def q2)
  from q1 q2 t1 t2 show ?thesis by simp
qed

text \<open>A script with something queued already, and its only node disabled.\<close>

definition disabled_process :: world where
  "disabled_process =
     (upd_prop 0 ''enabled'' (\<lambda>p. p\<lparr>p_value := Bool False\<rparr>) one_process)
       \<lparr>queuedChain := [(0, ''in'')], queuedProperties := [(0, ''p'', Num 1)]\<rparr>"

theorem disabled_node_is_not_queued_witness:
  "enabled disabled_process 0 = Bool False
   \<and> fst (triggerEntry 0 ''in'' disabled_process)
   \<and> queuedChain (snd (triggerEntry 0 ''in'' disabled_process)) = [(0, ''in'')]
   \<and> queuedProperties (triggerProperty 0 ''p'' (Num 2) disabled_process) = [(0, ''p'', Num 1)]"
proof -
  have e: "enabled disabled_process 0 = Bool False"
    by (simp add: disabled_process_def one_process_def mk_defs enabled_def property_get_def
        find_prop_def node_at_def upd_prop_def upd_node_def)
  have f: "fst (triggerEntry 0 ''in'' disabled_process)"
    by (simp add: disabled_process_def one_process_def mk_defs triggerEntry_def node_at_def
        upd_prop_def upd_node_def Let_def)
  have q: "queuedChain disabled_process = [(0, ''in'')]"
          "queuedProperties disabled_process = [(0, ''p'', Num 1)]"
    by (simp_all add: disabled_process_def)
  from disabled_node_is_not_queued [OF e, of "''in''" "Num 2"]
       disabled_node_is_not_queued [OF e, of "''p''" "Num 2"] e f q
  show ?thesis by simp
qed

text \<open>
  C6, as stated, concludes that a disabled node never executes. \<open>update\<close> does not
  read \<open>enabled\<close>: in a tick on \<open>disabled_process\<close>, whose only node is disabled, the
  queued property update and the queued flow trigger of that node are both handled, and
  the node's property \<open>p\<close> changes from 0 to 1.
\<close>

theorem disabled_node_executes:
  "enabled disabled_process 0 = Bool False
   \<and> property_get disabled_process 0 ''p'' = Num 0
   \<and> map_sum id (\<lambda>r. (fst r, property_get (snd r) 0 ''p'', queuedProperties (snd r), queuedChain (snd r)))
        (update (\<lambda>name a b. Undefined) disabled_process) =
       Inr ([PropertyUpdate 0 ''p'' (Num 1), FlowTrigger 0 ''in'' 0], Num 1, [], [])"
  by code_simp

section \<open>Breakpoints and step mode at enqueue time\<close>

text \<open>A process node with its breakpoint set, in an engine that is debugging and running.\<close>

definition breakpoint_process :: world where
  "breakpoint_process = upd_node 0 (\<lambda>n. n\<lparr>n_break := True\<rparr>) one_process"

text \<open>
  C5, as stated, says that enqueuing never sets the engine's paused flag. In
  \<open>breakpoint_process\<close> the engine is not paused, \<open>triggerEntry\<close> queues the trigger, and
  the engine is paused afterwards.
\<close>

theorem triggerEntry_sets_isPaused:
  "\<not> isPaused breakpoint_process
   \<and> queuedChain (snd (triggerEntry 0 ''in'' breakpoint_process)) = [(0, ''in'')]
   \<and> isPaused (snd (triggerEntry 0 ''in'' breakpoint_process))"
  by (simp add: breakpoint_process_def one_process_def mk_defs triggerEntry_def node_at_def
      upd_node_def Let_def queueNodeEntry_def mark_paused_def enabled_def property_get_def
      find_prop_def debugBreak_def engine_def)

text \<open>
  C5, amended. \<open>triggerEntry\<close> on a node that has the entry link, belongs to the engine
  and is enabled queues the trigger; the engine's paused flag is set by this very call
  exactly when the node's breakpoint is active or the engine is in step mode, and is left
  as it was in every other case. A paused engine's \<open>update\<close> does nothing.
\<close>

theorem triggerEntry_isPaused:
  "isPaused (snd (triggerEntry node name w)) =
     (isPaused w \<or>
      (fst (triggerEntry node name w) \<and> engine w node \<and> truthy (enabled w node) \<and>
       (debugBreak w node \<or> isStepping w)))
   \<and> queuedChain (snd (triggerEntry node name w)) =
       queuedChain w @
         (if fst (triggerEntry node name w) \<and> engine w node \<and> truthy (enabled w node)
          then [(node, name)] else [])
   \<and> (if isPaused (snd (triggerEntry node name w))
       then update ar (snd (triggerEntry node name w)) = Inr ([], snd (triggerEntry node name w))
       else True)"
proof (cases "node_at w node")
  case None
  then show ?thesis by (simp add: triggerEntry_def update_def)
next
  case (Some n)
  show ?thesis
  proof (cases "find (\<lambda>l. l_name l = name) (n_entry n)")
    case None
    with Some show ?thesis by (simp add: triggerEntry_def update_def)
  next
    case (Some l)
    define w1 where "w1 = upd_node node (\<lambda>n. n\<lparr>n_entry := upd_first (\<lambda>l. l_name l = name)
        (\<lambda>l. l\<lparr>l_flash := True, l_paused := ((debugBreak w node \<or> (engine w node \<and> isStepping w)) \<or> l_paused l)\<rparr>)
        (n_entry n)\<rparr>) w"
    have q: "enabled w1 node = enabled w node" "engine w1 node = engine w node"
      "debugBreak w1 node = debugBreak w node" "isPaused w1 = isPaused w" "isStepping w1 = isStepping w"
      "queuedChain w1 = queuedChain w"
      by (simp_all add: w1_def enabled_upd_node engine_upd_node debugBreak_upd_node)
    have nm: "l_name l = name"
      using Some by (auto simp: find_Some_iff)
    have r: "triggerEntry node name w = (True, if engine w1 node then queueNodeEntry node name w1 else w1)"
      using \<open>node_at w node = Some n\<close> Some nm by (simp add: triggerEntry_def Let_def w1_def)
    show ?thesis
      by (simp add: r isPaused_queueNodeEntry queuedChain_queueNodeEntry q update_def)
  qed
qed

theorem triggerEntry_isPaused_witness:
  "isPaused (snd (triggerEntry 0 ''in'' breakpoint_process))
   \<and> update (\<lambda>name a b. Undefined) (snd (triggerEntry 0 ''in'' breakpoint_process))
       = Inr ([], snd (triggerEntry 0 ''in'' breakpoint_process))
   \<and> \<not> isPaused (snd (triggerEntry 0 ''in'' one_process))
   \<and> queuedChain (snd (triggerEntry 0 ''in'' one_process)) = [(0, ''in'')]"
proof -
  have a: "fst (triggerEntry 0 ''in'' breakpoint_process)" "engine breakpoint_process 0"
    "truthy (enabled breakpoint_process 0)" "debugBreak breakpoint_process 0"
    by (simp_all add: breakpoint_process_def one_process_def mk_defs triggerEntry_def node_at_def
      upd_node_def Let_def enabled_def property_get_def find_prop_def debugBreak_def engine_def)
  have b: "fst (triggerEntry 0 ''in'' one_process)" "engine one_process 0"
    "truthy (enabled one_process 0)" "\<not> debugBreak one_process 0" "\<not> isStepping one_process"
    "\<not> isPaused one_process" "queuedChain one_process = []"
    by (simp_all add: one_process_def mk_defs triggerEntry_def node_at_def
      upd_node_def Let_def enabled_def property_get_def find_prop_def debugBreak_def engine_def)
  from triggerEntry_isPaused [of 0 "''in''" breakpoint_process "\<lambda>name a b. Undefined"]
       triggerEntry_isPaused [of 0 "''in''" one_process "\<lambda>name a b. Undefined"] a b
  show ?thesis by simp
qed

section \<open>The budget of a tick\<close>

text \<open>
  A script with one property update and one flow trigger queued, and an update limit of 1.
\<close>

definition limit_one :: world where
  "limit_one = one_process
     \<lparr>updateLimit := 1, queuedProperties := [(0, ''p'', Num 1)], queuedChain := [(0, ''in'')]\<rparr>"

text \<open>
  C1. With \<open>updateLimit = 1\<close> the tick handles the property update and the flow trigger,
  two items: the variable \<open>count\<close> is 0 when the first loop ends, so the second loop's
  bound \<open>updateLimit - count\<close> is the whole limit again.
\<close>

theorem update_exceeds_updateLimit:
  "updateLimit limit_one = 1
   \<and> (\<forall>ar. \<exists>w'. update ar limit_one
          = Inr ([PropertyUpdate 0 ''p'' (Num 1), FlowTrigger 0 ''in'' 0], w'))"
  by (simp add: update_def limit_one_def one_process_def mk_defs
      wcNode_property_def find_prop_def node_at_def upd_prop_def upd_node_def debugBreak_def engine_def
      property_get_def onTriggered_def class_of_def Let_def)

section \<open>Removing a property\<close>

lemma removeProperty_loop_False: "fst (removeProperty_loop this name i ps w) = False"
  by (induction ps arbitrary: i w) (auto split: prod.splits)

lemma removeProperty_False: "fst (removeProperty this name w) = False"
  by (simp add: removeProperty_def removeProperty_loop_False split: option.split)

text \<open>
  C7. \<open>removeProperty\<close> on the property \<open>p\<close> of \<open>one_process\<close>, which exists and has no
  connection: both disconnects succeed, the call returns \<open>false\<close> and the property is
  still there. \<open>removeEntry\<close> on the entry link \<open>in\<close> returns \<open>true\<close> and removes it.
\<close>

theorem removeProperty_keeps_property:
  "fst (disconnectInput 0 ''p'' None None one_process) = SUCCESS
   \<and> fst (disconnectOutput 0 ''p'' None None one_process) = SUCCESS
   \<and> removeProperty 0 ''p'' one_process = (False, one_process)
   \<and> find_prop one_process 0 ''p'' = Some (mk_property ''p'' (Num 0))
   \<and> fst (removeEntry 0 ''in'' one_process)
   \<and> get_links ENTRY (snd (removeEntry 0 ''in'' one_process)) 0 ''in'' = None"
  by code_simp

section \<open>Initial values\<close>

lemma find_upd_first:
  "(\<And>x. P (f x) = P x) \<Longrightarrow> find P (upd_first P f xs) = map_option f (find P xs)"
  by (induction xs) auto

lemma find_upd_first_Some:
  "find P xs = Some y \<Longrightarrow> P (f y) \<Longrightarrow> find P (upd_first P f xs) = Some (f y)"
  by (induction xs) (auto split: if_splits)

lemma wcPlay_initialProperty_coupled:
  assumes "find (\<lambda>p. g_name p = name) (properties w) = Some prop" and "value \<noteq> Undefined"
  shows "find (\<lambda>p. g_name p = name) (properties (snd (wcPlay_initialProperty w name value)))
         = Some (prop\<lparr>g_initialValue := value,
                     g_value := (if g_value prop = g_initialValue prop then value else g_value prop)\<rparr>)"
proof -
  have n: "g_name prop = name"
    using assms(1) by (auto simp: find_Some_iff)
  show ?thesis
  proof (cases "value = g_initialValue prop")
    case True
    with assms show ?thesis by (simp add: wcPlay_initialProperty_def)
  next
    case False
    with assms n show ?thesis
      by (simp add: wcPlay_initialProperty_def Let_def find_upd_first_Some)
  qed
qed

text \<open>
  C8. \<open>initialValue\<close> (the node-level setter of \<open>Code/nodes/node.js\<close>) on the property
  \<open>p\<close> of \<open>one_process\<close>, whose value and initial value are both 0: the initial value
  becomes 5 and the value stays 0. The setter \<open>initialProperty\<close> of the bundle moves the
  value along.
\<close>

theorem initialValue_leaves_value:
  "map_option p_value (find_prop one_process 0 ''p'') = Some (Num 0)
   \<and> map_option p_initialValue (find_prop one_process 0 ''p'') = Some (Num 0)
   \<and> map_option p_initialValue (find_prop (snd (initialValue 0 ''p'' (Num 5) one_process)) 0 ''p'') = Some (Num 5)
   \<and> map_option p_value (find_prop (snd (initialValue 0 ''p'' (Num 5) one_process)) 0 ''p'') = Some (Num 0)
   \<and> map_option p_value (find_prop (snd (initialProperty 0 ''p'' (Num 5) one_process)) 0 ''p'') = Some (Num 5)"
  by (simp add: one_process_def mk_defs initialValue_def initialProperty_def find_prop_def node_at_def
      upd_node_def upd_prop_def wcNode_property_def debugBreak_def engine_def property_get_def Let_def)

section \<open>Connection arrays as a store\<close>

lemma find_upd_first_other:
  "(\<And>x. Q (f x) = Q x) \<Longrightarrow> (\<And>x. P x \<Longrightarrow> \<not> Q x) \<Longrightarrow> find Q (upd_first P f xs) = find Q xs"
  by (induction xs) auto

lemma find_name_upd_first_link:
  "find (\<lambda>l. l_name l = m) (upd_first (\<lambda>l. l_name l = n) (\<lambda>l. l\<lparr>l_links := ls\<rparr>) xs) =
     (if m = n then map_option (\<lambda>l. l\<lparr>l_links := ls\<rparr>) (find (\<lambda>l. l_name l = n) xs)
      else find (\<lambda>l. l_name l = m) xs)"
  by (induction xs) auto

lemma find_name_upd_first_prop:
  assumes "\<And>p. p_name (f p) = p_name p"
  shows "find (\<lambda>p. p_name p = m) (upd_first (\<lambda>p. p_name p = n) f xs) =
     (if m = n then map_option f (find (\<lambda>p. p_name p = n) xs)
      else find (\<lambda>p. p_name p = m) xs)"
  using assms by (induction xs) auto

lemma get_links_put_links:
  "get_links t' (put_links t X n ls w) X' n' =
     (if t' = t \<and> X' = X \<and> n' = n \<and> get_links t w X n \<noteq> None then Some ls
      else get_links t' w X' n')"
proof (cases "node_at w X")
  case None
  then show ?thesis
    by (auto simp: get_links_def put_links_def node_at_def upd_node_def)
next
  case (Some nd)
  show ?thesis
  proof (cases "X' = X")
    case False
    then show ?thesis
      by (auto simp: get_links_def put_links_def node_at_upd_node)
  next
    case True
    with Some show ?thesis
      by (cases t; cases t')
         (auto simp: get_links_def put_links_def node_at_upd_node find_name_upd_first_link
            find_name_upd_first_prop option.map_comp comp_def split: option.splits)
  qed
qed


lemma node_at_put_links_None:
  "node_at (put_links t X n ls w) Y = None \<longleftrightarrow> node_at w Y = None"
  by (simp add: put_links_def node_at_def)

lemma get_links_node_at: "get_links t w X n = Some ls \<Longrightarrow> node_at w X \<noteq> None"
  by (auto simp: get_links_def split: option.splits)

section \<open>Connecting twice\<close>

text \<open>Two process nodes without connections.\<close>

definition two_processes :: world where
  "two_processes =
     (mk_world [mk_node WcNodeProcess [mk_link ''in''] [mk_link ''out''] [mk_property ''p'' (Num 0)],
                mk_node WcNodeProcess [mk_link ''in''] [mk_link ''out''] [mk_property ''q'' (Num 0)]])
       \<lparr>processNodes := [0, 1]\<rparr>"

text \<open>The same script with entry \<open>in\<close> of node 0 connected to exit \<open>out\<close> of node 1.\<close>

definition connected_processes :: world where
  "connected_processes = snd (connectEntry 0 ''in'' 1 ''out'' two_processes)"

lemma connect_ENTRY_fresh:
  assumes "get_links ENTRY w this name = Some myLinks"
      and "get_links EXIT w targetNode targetName = Some targetLinks"
      and "(targetNode, targetName) \<notin> set myLinks"
      and "(this, name) \<notin> set targetLinks"
  shows "connectEntry this name targetNode targetName w =
           (SUCCESS, put_links EXIT targetNode targetName (targetLinks @ [(this, name)])
                       (put_links ENTRY this name (myLinks @ [(targetNode, targetName)]) w))"
  using assms get_links_node_at[OF assms(2)]
  by (simp add: connectEntry_def connect_def push_link_def onConnect_def get_links_put_links Let_def)

text \<open>
  C4, as stated, promises \<open>SUCCESS\<close> for the first of two calls on any two nodes that have
  the two links. In \<open>connected_processes\<close> both links exist and the first call returns
  \<open>ALREADY_CONNECTED\<close>.
\<close>

theorem connectEntry_first_call_already_connected:
  "get_links ENTRY connected_processes 0 ''in'' = Some [(1, ''out'')]
   \<and> get_links EXIT connected_processes 1 ''out'' = Some [(0, ''in'')]
   \<and> fst (connectEntry 0 ''in'' 1 ''out'' connected_processes) = ALREADY_CONNECTED"
  by code_simp

text \<open>
  C4, amended. When the entry link and the exit link exist and neither holds the pairing
  yet, \<open>connectEntry\<close> returns \<open>SUCCESS\<close> and the same call again returns
  \<open>ALREADY_CONNECTED\<close> and changes nothing; afterwards each of the two arrays is the old
  one with the pairing appended, so it holds the pairing once. When one of the two links
  does not exist, the call returns \<open>NOT_FOUND\<close> and changes nothing.
\<close>

theorem connectEntry_twice:
  "(get_links ENTRY w this name = Some myLinks \<and>
    get_links EXIT w targetNode targetName = Some targetLinks \<and>
    (targetNode, targetName) \<notin> set myLinks \<and> (this, name) \<notin> set targetLinks \<longrightarrow>
      (let w1 = snd (connectEntry this name targetNode targetName w) in
         fst (connectEntry this name targetNode targetName w) = SUCCESS
       \<and> connectEntry this name targetNode targetName w1 = (ALREADY_CONNECTED, w1)
       \<and> get_links ENTRY w1 this name = Some (myLinks @ [(targetNode, targetName)])
       \<and> get_links EXIT w1 targetNode targetName = Some (targetLinks @ [(this, name)])
       \<and> count_list (myLinks @ [(targetNode, targetName)]) (targetNode, targetName) = 1
       \<and> count_list (targetLinks @ [(this, name)]) (this, name) = 1))
   \<and> (get_links ENTRY w this name = None \<or> get_links EXIT w targetNode targetName = None \<longrightarrow>
        connectEntry this name targetNode targetName w = (NOT_FOUND, w))"
proof (intro conjI impI)
  assume a: "get_links ENTRY w this name = Some myLinks \<and>
    get_links EXIT w targetNode targetName = Some targetLinks \<and>
    (targetNode, targetName) \<notin> set myLinks \<and> (this, name) \<notin> set targetLinks"
  define w1 where "w1 = put_links EXIT targetNode targetName (targetLinks @ [(this, name)])
                       (put_links ENTRY this name (myLinks @ [(targetNode, targetName)]) w)"
  have c: "connectEntry this name targetNode targetName w = (SUCCESS, w1)"
    using a by (simp add: connect_ENTRY_fresh w1_def)
  have g1: "get_links ENTRY w1 this name = Some (myLinks @ [(targetNode, targetName)])"
    using a by (simp add: w1_def get_links_put_links)
  have g2: "get_links EXIT w1 targetNode targetName = Some (targetLinks @ [(this, name)])"
    using a by (simp add: w1_def get_links_put_links)
  have n: "node_at w1 targetNode \<noteq> None"
    using g2 by (rule get_links_node_at)
  have c2: "connectEntry this name targetNode targetName w1 = (ALREADY_CONNECTED, w1)"
    using g1 g2 n by (simp add: connectEntry_def connect_def)
  have k: "count_list (myLinks @ [(targetNode, targetName)]) (targetNode, targetName) = 1"
          "count_list (targetLinks @ [(this, name)]) (this, name) = 1"
    using a by (simp_all add: count_list_0_iff)
  show "let w1 = snd (connectEntry this name targetNode targetName w) in
         fst (connectEntry this name targetNode targetName w) = SUCCESS
       \<and> connectEntry this name targetNode targetName w1 = (ALREADY_CONNECTED, w1)
       \<and> get_links ENTRY w1 this name = Some (myLinks @ [(targetNode, targetName)])
       \<and> get_links EXIT w1 targetNode targetName = Some (targetLinks @ [(this, name)])
       \<and> count_list (myLinks @ [(targetNode, targetName)]) (targetNode, targetName) = 1
       \<and> count_list (targetLinks @ [(this, name)]) (this, name) = 1"
    using c c2 g1 g2 k by (simp add: Let_def)
next
  assume "get_links ENTRY w this name = None \<or> get_links EXIT w targetNode targetName = None"
  then show "connectEntry this name targetNode targetName w = (NOT_FOUND, w)"
    by (auto simp: connectEntry_def connect_def split: option.splits)
qed

theorem connectEntry_twice_witness:
  "fst (connectEntry 0 ''in'' 1 ''out'' two_processes) = SUCCESS
   \<and> fst (connectEntry 0 ''in'' 1 ''out'' connected_processes) = ALREADY_CONNECTED
   \<and> get_links ENTRY connected_processes 0 ''in'' = Some [(1, ''out'')]
   \<and> get_links EXIT connected_processes 1 ''out'' = Some [(0, ''in'')]
   \<and> connectEntry 0 ''nowhere'' 1 ''out'' two_processes = (NOT_FOUND, two_processes)"
proof -
  have h: "get_links ENTRY two_processes 0 ''in'' = Some []"
          "get_links EXIT two_processes 1 ''out'' = Some []"
          "get_links ENTRY two_processes 0 ''nowhere'' = None"
    by (simp_all add: two_processes_def mk_defs get_links_def node_at_def)
  from connectEntry_twice [of two_processes 0 "''in''" "[]" 1 "''out''" "[]"]
       connectEntry_twice [of two_processes 0 "''nowhere''" "[]" 1 "''out''" "[]"] h
  show ?thesis by (simp add: connected_processes_def Let_def)
qed

section \<open>Restart\<close>

text \<open>
  What \<open>start\<close> is about: per node the values and initial values of its properties and
  its thread tokens, the script-level properties and the host timers.
\<close>

definition node_data :: "node \<Rightarrow> (val \<times> val) list \<times> val list \<times> node_class" where
  "node_data n = (map (\<lambda>p. (p_value p, p_initialValue p)) (n_properties n), n_threads n, n_class n)"

definition world_data :: "world \<Rightarrow> ((val \<times> val) list \<times> val list \<times> node_class) list \<times> gproperty list \<times> int list" where
  "world_data w = (map node_data (nodes w), properties w, timers w)"

definition engine_nodes :: "world \<Rightarrow> nat list" where
  "engine_nodes w = storageNodes w @ processNodes w @ compositeNodes w @ entryNodes w"


lemma upd_node_partitions [simp]:
  "storageNodes (upd_node i f w) = storageNodes w"
  "processNodes (upd_node i f w) = processNodes w"
  "compositeNodes (upd_node i f w) = compositeNodes w"
  "entryNodes (upd_node i f w) = entryNodes w"
  "engine_nodes (upd_node i f w) = engine_nodes w"
  by (simp_all add: upd_node_def engine_nodes_def)

text \<open>A step that keeps the data and the partitions.\<close>

definition keeps :: "world \<Rightarrow> world \<Rightarrow> bool" where
  "keeps w w' \<longleftrightarrow> world_data w' = world_data w \<and> engine_nodes w' = engine_nodes w"

lemma keeps_refl [simp]: "keeps w w"
  by (simp add: keeps_def)















lemma find_prop_upd_prop_flags:
  "(\<And>p. p_name (f p) = p_name p) \<Longrightarrow>
   find_prop (upd_prop this name f w) this name = map_option f (find_prop w this name)"
  by (auto simp: find_prop_def upd_prop_def node_at_upd_node find_upd_first split: option.splits)








lemma clear_threads_nodes [simp]: "nodes (clear_threads ths w) = nodes w"
  by (induction ths w rule: clear_threads.induct) (simp_all add: clearTimeout_def)

lemma clear_threads_fields [simp]:
  "properties (clear_threads ths w) = properties w"
  "engine_nodes (clear_threads ths w) = engine_nodes w"
  "queuedChain (clear_threads ths w) = queuedChain w"
  "queuedProperties (clear_threads ths w) = queuedProperties w"
  by (induction ths w rule: clear_threads.induct) (simp_all add: clearTimeout_def engine_nodes_def)


lemma reset_length [simp]: "length (nodes (reset j w)) = length (nodes w)"
  by (simp add: reset_def upd_node_def Let_def split: option.split)

lemma reset_fields [simp]:
  "properties (reset j w) = properties w"
  "engine_nodes (reset j w) = engine_nodes w"
  by (simp_all add: reset_def Let_def split: option.split)

lemma reset_other: "i \<noteq> j \<Longrightarrow> nodes (reset j w) ! i = nodes w ! i"
  by (simp add: reset_def upd_node_def Let_def split: option.split)






lemma reset_threads_other:
  "i \<noteq> j \<Longrightarrow> n_threads (nodes (reset j w) ! i) = n_threads (nodes w ! i)"
  by (simp add: reset_other)

lemma fold_reset_length [simp]: "length (nodes (fold reset xs w)) = length (nodes w)"
  by (induction xs arbitrary: w) simp_all

lemma fold_reset_fields [simp]:
  "properties (fold reset xs w) = properties w"
  "engine_nodes (fold reset xs w) = engine_nodes w"
  by (induction xs arbitrary: w) simp_all








lemma engine_nodes_fields [simp]:
  "engine_nodes (w\<lparr>isPaused := b\<rparr>) = engine_nodes w"
  "engine_nodes (w\<lparr>isStepping := b\<rparr>) = engine_nodes w"
  "engine_nodes (w\<lparr>properties := ps\<rparr>) = engine_nodes w"
  "engine_nodes (w\<lparr>queuedChain := qc\<rparr>) = engine_nodes w"
  "engine_nodes (w\<lparr>queuedProperties := qp\<rparr>) = engine_nodes w"
  by (simp_all add: engine_nodes_def)
















section \<open>The order of a tick\<close>

text \<open>Handling a property update leaves the flow queue alone and only appends to the property queue.\<close>

definition property_step :: "world \<Rightarrow> world \<Rightarrow> bool" where
  "property_step w w' \<longleftrightarrow>
     queuedChain w' = queuedChain w \<and> updateLimit w' = updateLimit w \<and>
     prefix (queuedProperties w) (queuedProperties w')"

lemma property_step_refl [simp]: "property_step w w"
  by (simp add: property_step_def)

lemma property_step_trans: "property_step w w1 \<Longrightarrow> property_step w1 w2 \<Longrightarrow> property_step w w2"
  by (auto simp: property_step_def)

lemma property_step_upd_node [simp]: "property_step w (upd_node i f w)"
  by (simp add: property_step_def)

lemma property_step_upd_prop [simp]: "property_step w (upd_prop this name f w)"
  by (simp add: upd_prop_def)

lemma property_step_queueNodeProperty: "property_step w (queueNodeProperty node name value w)"
  by (simp add: queueNodeProperty_def mark_paused_def property_step_def)

lemma property_step_triggerProperty: "property_step w (triggerProperty this name value w)"
proof -
  have "property_step w1 (triggerProperty this name value w)"
    if "w1 = (if engine w this then queueNodeProperty this name value w else w)" for w1
    using that by (simp add: triggerProperty_def Let_def)
  moreover have "property_step w (if engine w this then queueNodeProperty this name value w else w)"
    by (simp add: property_step_queueNodeProperty)
  ultimately show ?thesis
    by (blast intro: property_step_trans)
qed

lemma property_step_fan_out: "property_step w (fan_out outs value w)"
proof (induction outs arbitrary: w)
  case Nil
  show ?case by simp
next
  case (Cons r outs)
  obtain node name where r: "r = (node, name)" by (cases r)
  show ?case
    unfolding r fan_out.simps
    by (rule property_step_trans[OF property_step_triggerProperty Cons.IH])
qed

lemma property_step_wcNode_property:
  "property_step w (snd (wcNode_property this name value forceOrSilent w))"
proof (cases "find_prop w this name")
  case None
  then show ?thesis by (simp add: wcNode_property_def)
next
  case (Some pr)
  have a: "property_step w (fan_out outs v (upd_prop this name g (upd_prop this name f w)))" for outs v f g
    by (rule property_step_trans[OF _ property_step_fan_out])
       (rule property_step_trans[OF property_step_upd_prop property_step_upd_prop])
  have b: "property_step w (upd_prop this name g (upd_prop this name f w))" for f g
    by (rule property_step_trans[OF property_step_upd_prop property_step_upd_prop])
  from Some show ?thesis
    by (simp add: wcNode_property_def Let_def a b)
qed

text \<open>A flow handler only appends to the flow queue, and only appends to the property queue.\<close>

definition flow_step :: "world \<Rightarrow> world \<Rightarrow> bool" where
  "flow_step w w' \<longleftrightarrow>
     prefix (queuedChain w) (queuedChain w') \<and> prefix (queuedProperties w) (queuedProperties w')"

lemma flow_step_refl [simp]: "flow_step w w"
  by (simp add: flow_step_def)

lemma flow_step_trans: "flow_step w w1 \<Longrightarrow> flow_step w1 w2 \<Longrightarrow> flow_step w w2"
  by (auto simp: flow_step_def)

lemma flow_step_upd_node [simp]: "flow_step w (upd_node i f w)"
  by (simp add: flow_step_def)

lemma property_step_flow_step: "property_step w w' \<Longrightarrow> flow_step w w'"
  by (simp add: property_step_def flow_step_def)

lemma flow_step_triggerEntry: "flow_step w (snd (triggerEntry this name w))"
  by (simp add: triggerEntry_def Let_def queueNodeEntry_def mark_paused_def flow_step_def
      split: option.split)

lemma flow_step_exit_loop: "flow_step w (exit_loop this name links w)"
proof (induction links arbitrary: w)
  case Nil
  show ?case by simp
next
  case (Cons r links)
  obtain node entryName where r: "r = (node, entryName)" by (cases r)
  have "flow_step w (if b then upd_node this g (snd (triggerEntry node entryName w))
                     else snd (triggerEntry node entryName w))" for b g
    by (auto intro: flow_step_trans[OF flow_step_triggerEntry flow_step_upd_node] flow_step_triggerEntry)
  then show ?case
    unfolding r exit_loop.simps Let_def
    by (rule flow_step_trans[OF _ Cons.IH])
qed

lemma flow_step_triggerExit: "flow_step w (snd (triggerExit this name w))"
  by (auto simp: triggerExit_def Let_def split: option.split
      intro: flow_step_trans[OF flow_step_upd_node flow_step_exit_loop])

lemma flow_step_onTriggered: "flow_step w (onTriggered ar this name w)"
proof -
  have d: "flow_step w (wcNodeProcessDelay_onTriggered this w)"
  proof -
    have "flow_step w1 (beginThread this v (w1\<lparr>timers := ts, nextTimer := t\<rparr>))" for w1 v ts t
      by (simp add: beginThread_def flow_step_def upd_node_def)
    from flow_step_trans[OF flow_step_triggerExit this] show ?thesis
      by (simp add: wcNodeProcessDelay_onTriggered_def Let_def)
  qed
  have o: "flow_step w (wcNodeProcessOperation_onTriggered ar this name w)"
    unfolding wcNodeProcessOperation_onTriggered_def Let_def
    by (rule flow_step_trans[OF property_step_flow_step[OF property_step_wcNode_property] flow_step_triggerExit])
  show ?thesis
    by (simp add: onTriggered_def wcNodeEntry_onTriggered_def flow_step_triggerExit d o
        split: node_class.split)
qed

text \<open>The record of a handled item.\<close>

fun property_event :: "nat \<times> string \<times> val \<Rightarrow> event" where
  "property_event (node, name, value) = PropertyUpdate node name value"

fun flow_event :: "(nat \<times> string) \<times> nat \<Rightarrow> event" where
  "flow_event ((node, name), pending) = FlowTrigger node name pending"

text \<open>
  What \<open>update\<close> does with one item: the body of its first loop (\<open>shift\<close>, the two flags,
  \<open>item.node.property(item.name, item.value)\<close>) and the body of its second loop (\<open>shift\<close>,
  the two flags, \<open>item.node.onTriggered(item.name)\<close>).
\<close>

definition handle_property :: "nat \<times> string \<times> val \<Rightarrow> world \<Rightarrow> world" where
  "handle_property item w =
     (case item of (node, name, value) \<Rightarrow>
        snd (wcNode_property node name value Undefined
              (upd_node node (\<lambda>n. n\<lparr>n_flash := True, n_paused := False\<rparr>)
                 (w\<lparr>queuedProperties := tl (queuedProperties w)\<rparr>))))"

definition handle_flow :: "arith \<Rightarrow> nat \<times> string \<Rightarrow> world \<Rightarrow> world" where
  "handle_flow ar item w =
     (case item of (node, name) \<Rightarrow>
        onTriggered ar node name
          (upd_node node (\<lambda>n. n\<lparr>n_flash := True, n_paused := False\<rparr>)
             (w\<lparr>queuedChain := tl (queuedChain w)\<rparr>)))"

text \<open>The length of the property queue at the moment each of the flow triggers is taken.\<close>

fun pendings :: "arith \<Rightarrow> (nat \<times> string) list \<Rightarrow> world \<Rightarrow> nat list" where
  "pendings ar [] w = []"
| "pendings ar (item # items) w =
     length (queuedProperties w) # pendings ar items (handle_flow ar item w)"

lemma length_pendings [simp]: "length (pendings ar items w) = length items"
  by (induction items arbitrary: w) simp_all

lemma property_step_handle_property:
  "property_step (w\<lparr>queuedProperties := tl (queuedProperties w)\<rparr>) (handle_property item w)"
proof -
  obtain node name v where i: "item = (node, name, v)" by (cases item)
  show ?thesis
    unfolding i handle_property_def prod.case
    by (rule property_step_trans[OF property_step_upd_node property_step_wcNode_property])
qed

lemma flow_step_handle_flow:
  "flow_step (w\<lparr>queuedChain := tl (queuedChain w)\<rparr>) (handle_flow ar item w)"
proof -
  obtain node name where i: "item = (node, name)" by (cases item)
  show ?thesis
    unfolding i handle_flow_def prod.case
    by (rule flow_step_trans[OF flow_step_upd_node flow_step_onTriggered])
qed

text \<open>The first loop, run over a front part of the property queue.\<close>

lemma property_loop_fold:
  "k \<le> length (queuedProperties w) \<Longrightarrow>
     property_loop k w =
       Inr (map property_event (take k (queuedProperties w)), 0,
            fold handle_property (take k (queuedProperties w)) w)
   \<and> prefix (drop k (queuedProperties w))
        (queuedProperties (fold handle_property (take k (queuedProperties w)) w))
   \<and> queuedChain (fold handle_property (take k (queuedProperties w)) w) = queuedChain w
   \<and> updateLimit (fold handle_property (take k (queuedProperties w)) w) = updateLimit w"
proof (induction k arbitrary: w)
  case 0
  then show ?case by simp
next
  case (Suc k)
  then obtain node name v rest where q: "queuedProperties w = (node, name, v) # rest"
    by (cases "queuedProperties w") auto
  define w3 where "w3 = handle_property (node, name, v) w"
  have s: "property_step (w\<lparr>queuedProperties := rest\<rparr>) w3"
    using property_step_handle_property[of w "(node, name, v)"] by (simp add: q w3_def)
  then obtain xs where xs: "queuedProperties w3 = rest @ xs"
    by (auto simp: property_step_def prefix_def)
  from s have c: "queuedChain w3 = queuedChain w" "updateLimit w3 = updateLimit w"
    by (simp_all add: property_step_def)
  have k: "k \<le> length rest" using Suc.prems q by simp
  then have "k \<le> length (queuedProperties w3)" by (simp add: xs)
  note ih = Suc.IH[OF this]
  have t: "take k (queuedProperties w3) = take k rest"
    using k by (simp add: xs)
  have f: "fold handle_property (take (Suc k) (queuedProperties w)) w = fold handle_property (take k rest) w3"
    by (simp add: q w3_def)
  have l: "property_loop (Suc k) w =
             (case property_loop k w3 of Inl e \<Rightarrow> Inl e
              | Inr (evs, c, w4) \<Rightarrow> Inr (PropertyUpdate node name v # evs, c, w4))"
    by (simp add: q Let_def w3_def handle_property_def)
  have "property_loop (Suc k) w =
       Inr (map property_event (take (Suc k) (queuedProperties w)), 0,
            fold handle_property (take (Suc k) (queuedProperties w)) w)"
    unfolding l f using ih by (simp add: t q)
  moreover have "prefix (drop (Suc k) (queuedProperties w))
        (queuedProperties (fold handle_property (take (Suc k) (queuedProperties w)) w))"
    unfolding f using ih k by (auto simp: t q xs prefix_def)
  moreover have "queuedChain (fold handle_property (take (Suc k) (queuedProperties w)) w) = queuedChain w"
    "updateLimit (fold handle_property (take (Suc k) (queuedProperties w)) w) = updateLimit w"
    unfolding f using ih c by (simp_all add: t)
  ultimately show ?case by blast
qed

text \<open>The second loop, run over a front part of the flow queue.\<close>

lemma chain_loop_fold:
  "m \<le> length (queuedChain w) \<Longrightarrow>
     chain_loop ar m w =
       Inr (map flow_event (zip (take m (queuedChain w)) (pendings ar (take m (queuedChain w)) w)),
            fold (handle_flow ar) (take m (queuedChain w)) w)
   \<and> prefix (drop m (queuedChain w))
        (queuedChain (fold (handle_flow ar) (take m (queuedChain w)) w))
   \<and> prefix (queuedProperties w)
        (queuedProperties (fold (handle_flow ar) (take m (queuedChain w)) w))"
proof (induction m arbitrary: w)
  case 0
  then show ?case by simp
next
  case (Suc m)
  then obtain node name rest where q: "queuedChain w = (node, name) # rest"
    by (cases "queuedChain w") auto
  define w3 where "w3 = handle_flow ar (node, name) w"
  have s: "flow_step (w\<lparr>queuedChain := rest\<rparr>) w3"
    using flow_step_handle_flow[of w ar "(node, name)"] by (simp add: q w3_def)
  then obtain xs where xs: "queuedChain w3 = rest @ xs"
    by (auto simp: flow_step_def prefix_def)
  from s have p: "prefix (queuedProperties w) (queuedProperties w3)"
    by (simp add: flow_step_def)
  have m: "m \<le> length rest" using Suc.prems q by simp
  then have "m \<le> length (queuedChain w3)" by (simp add: xs)
  note ih = Suc.IH[OF this]
  have t: "take m (queuedChain w3) = take m rest"
    using m by (simp add: xs)
  have f: "fold (handle_flow ar) (take (Suc m) (queuedChain w)) w = fold (handle_flow ar) (take m rest) w3"
    by (simp add: q w3_def)
  have l: "chain_loop ar (Suc m) w =
             (case chain_loop ar m w3 of Inl e \<Rightarrow> Inl e
              | Inr (evs, w4) \<Rightarrow> Inr (FlowTrigger node name (length (queuedProperties w)) # evs, w4))"
    by (simp add: q Let_def w3_def handle_flow_def)
  have "chain_loop ar (Suc m) w =
       Inr (map flow_event (zip (take (Suc m) (queuedChain w)) (pendings ar (take (Suc m) (queuedChain w)) w)),
            fold (handle_flow ar) (take (Suc m) (queuedChain w)) w)"
    unfolding l f using ih by (simp add: t q w3_def[symmetric])
  moreover have "prefix (drop (Suc m) (queuedChain w))
        (queuedChain (fold (handle_flow ar) (take (Suc m) (queuedChain w)) w))"
    unfolding f using ih m by (auto simp: t q xs prefix_def)
  moreover have "prefix (queuedProperties w)
        (queuedProperties (fold (handle_flow ar) (take (Suc m) (queuedChain w)) w))"
    unfolding f using ih p by (auto simp: t intro: prefix_order.trans)
  ultimately show ?case by blast
qed

text \<open>
  Handling a property update writes the value: afterwards the target's property has the
  queued value (a queued \<open>undefined\<close> is a read, and a name the target does not have is
  ignored).
\<close>

lemma find_prop_upd_node_flags:
  "(\<And>n. n_properties (f n) = n_properties n) \<Longrightarrow> find_prop (upd_node i f w) this name = find_prop w this name"
  by (auto simp: find_prop_def node_at_def upd_node_def nth_list_update)

lemma find_prop_triggerProperty:
  "map_option p_value (find_prop (triggerProperty node nm v w) this name) =
   map_option p_value (find_prop w this name)"
proof -
  have a: "find_prop (mark_paused i w1) this name = find_prop w1 this name" for i w1
    by (simp add: mark_paused_def find_prop_def node_at_def upd_node_def nth_list_update)
  have b0: "find_prop (w\<lparr>queuedProperties := x\<rparr>) this name = find_prop w this name" for x
    by (simp add: find_prop_def node_at_def)
  have b: "find_prop (queueNodeProperty node nm v w) this name = find_prop w this name"
    by (simp add: queueNodeProperty_def a b0)
  have c: "map_option p_value (find (\<lambda>p. p_name p = name)
             (map (\<lambda>p. if p_name p = nm then p\<lparr>p_inFlash := True, p_inPaused := (x \<or> p_inPaused p)\<rparr> else p) ps)) =
           map_option p_value (find (\<lambda>p. p_name p = name) ps)" for x ps
    by (induction ps) auto
  have d: "map_option p_value (find_prop (upd_node node (\<lambda>n. n\<lparr>n_properties :=
             map (\<lambda>p. if p_name p = nm then p\<lparr>p_inFlash := True, p_inPaused := (x \<or> p_inPaused p)\<rparr> else p)
               (n_properties n)\<rparr>) w1) this name) = map_option p_value (find_prop w1 this name)" for x w1
    by (auto simp: find_prop_def node_at_def upd_node_def nth_list_update c)
  show ?thesis
    by (simp add: triggerProperty_def Let_def d b)
qed

lemma property_get_fan_out: "property_get (fan_out outs v w) this name = property_get w this name"
proof (induction outs arbitrary: w)
  case Nil
  show ?case by simp
next
  case (Cons r outs)
  obtain node nm where r: "r = (node, nm)" by (cases r)
  have "property_get (triggerProperty node nm v w) this name = property_get w this name"
    using find_prop_triggerProperty[of node nm v w this name]
    by (auto simp: property_get_def split: option.splits)
  with Cons.IH show ?case
    by (simp add: r)
qed

lemma property_get_wcNode_property:
  assumes "find_prop w this name \<noteq> None" and "v \<noteq> Undefined"
  shows "property_get (snd (wcNode_property this name v Undefined w)) this name = v"
proof -
  from assms obtain pr where pr: "find_prop w this name = Some pr" by auto
  have a: "property_get (upd_prop this name f w) this name = p_value (f pr)"
    if "\<And>p. p_name (f p) = p_name p" for f
    using that by (simp add: property_get_def find_prop_upd_prop_flags pr)
  have b: "find_prop (upd_prop this name f w) this name = Some (f pr)"
    if "\<And>p. p_name (f p) = p_name p" for f
    using that by (simp add: find_prop_upd_prop_flags pr)
  have c: "property_get (upd_prop this name g (upd_prop this name f w)) this name = p_value (g (f pr))"
    if "\<And>p. p_name (f p) = p_name p" "\<And>p. p_name (g p) = p_name p" for f g
    using that by (simp add: property_get_def find_prop_upd_prop_flags pr)
  show ?thesis
    using assms(2) by (simp add: wcNode_property_def pr Let_def property_get_fan_out a c)
qed

lemma property_get_handle_property:
  assumes "find_prop w node name \<noteq> None" and "v \<noteq> Undefined"
  shows "property_get (handle_property (node, name, v) w) node name = v"
proof -
  have "find_prop (upd_node node (\<lambda>n. n\<lparr>n_flash := True, n_paused := False\<rparr>)
          (w\<lparr>queuedProperties := tl (queuedProperties w)\<rparr>)) node name = find_prop w node name"
    by (simp add: find_prop_upd_node_flags) (simp add: find_prop_def node_at_def)
  with assms(1) have "find_prop (upd_node node (\<lambda>n. n\<lparr>n_flash := True, n_paused := False\<rparr>)
          (w\<lparr>queuedProperties := tl (queuedProperties w)\<rparr>)) node name \<noteq> None"
    by simp
  from property_get_wcNode_property[OF this assms(2)] show ?thesis
    by (simp add: handle_property_def)
qed

text \<open>
  An arithmetic for the examples: the runtime's on integer operands, as far as the result
  is an integer.
\<close>

definition int_arith :: arith where
  "int_arith name a b =
     (case (a, b) of
        (Num x, Num y) \<Rightarrow>
          if name = ''add'' then Num (x + y)
          else if name = ''sub'' then Num (x - y)
          else if name = ''mul'' then Num (x * y)
          else if y \<noteq> 0 \<and> x mod y = 0 then Num (x div y)
          else Undefined
      | _ \<Rightarrow> Undefined)"

text \<open>
  An operation node (1 + 1) whose \<open>result\<close> output is connected to the property \<open>q\<close> of
  a process node; then \<open>add\<close> of the operation node and \<open>in\<close> of the process node are
  triggered. The property queue holds the update that \<open>connectOutput\<close> queued.
\<close>

definition operation_script :: world where
  "operation_script =
     snd (triggerEntry 1 ''in'' (snd (triggerEntry 0 ''add''
       (snd (connectOutput 0 ''result'' 1 ''q''
         ((mk_world [mk_node WcNodeProcessOperation
                       [mk_link ''add'', mk_link ''sub'', mk_link ''mul'', mk_link ''div'']
                       [mk_link ''out'']
                       [mk_property ''valueA'' (Num 1), mk_property ''valueB'' (Num 1),
                        mk_property ''result'' (Num 0)],
                     mk_node WcNodeProcess [mk_link ''in''] [mk_link ''out''] [mk_property ''q'' (Num 0)]])
            \<lparr>processNodes := [0, 1]\<rparr>))))))"

text \<open>
  C2, as stated, says that no flow trigger is handled while a property update is pending.
  In the tick on \<open>operation_script\<close> the operation node's handler sets \<open>result\<close>, which
  queues an update for \<open>q\<close>, and the trigger of the process node is handled next, in the
  same tick, with that update pending.
\<close>

theorem flow_trigger_handled_with_update_pending:
  "map_sum id fst (update int_arith operation_script) =
     Inr [PropertyUpdate 1 ''q'' (Num 0), FlowTrigger 0 ''add'' 0, FlowTrigger 1 ''in'' 1]"
  by code_simp

text \<open>
  C2, amended. A tick that is not paused handles the first \<open>k\<close> items of the property
  queue, in queue order, where \<open>k\<close> is the smaller of the queue's length and
  \<open>updateLimit\<close>, and then the first \<open>m\<close> items of the flow queue, in queue order; the
  state it leaves is the one that these handlings leave, one after the other (a paused
  tick handles nothing and leaves the state as it is). Handling a property update leaves
  the flow queue alone and takes from the property queue only its own item; handling a
  flow trigger takes nothing from the property queue. If the property queue is not empty
  after the \<open>k\<close> updates, no flow trigger is handled; if it is empty, every update queued
  when the tick began has been handled (\<open>k\<close> is the length of the queue), the first flow
  trigger is taken with no update pending, and \<open>m\<close> is at least what \<open>updateLimit - k\<close>
  allows and at most \<open>updateLimit\<close>. What the flow handlers queue is still in the property
  queue when the tick ends. Handling an update \<open>(node, name, v)\<close> for a property the node
  has, with \<open>v\<close> not \<open>undefined\<close>, leaves that property with the value \<open>v\<close>.
\<close>

theorem update_order:
  "(\<exists>m. let k = (if isPaused w then 0 else min (length (queuedProperties w)) (updateLimit w));
            ps = take k (queuedProperties w);
            w1 = fold handle_property ps w;
            fs = take m (queuedChain w);
            w2 = fold (handle_flow ar) fs w1
        in update ar w =
             Inr (map property_event ps @ map flow_event (zip fs (pendings ar fs w1)),
                  if isPaused w then w else if isStepping w2 then w2\<lparr>isPaused := True\<rparr> else w2)
         \<and> m \<le> length (queuedChain w) \<and> m \<le> updateLimit w
         \<and> (if isPaused w \<or> queuedProperties w1 \<noteq> [] then m = 0
             else k = length (queuedProperties w)
                \<and> min (length (queuedChain w)) (updateLimit w - k) \<le> m
                \<and> (m = 0 \<or> hd (pendings ar fs w1) = 0))
         \<and> queuedChain w1 = queuedChain w
         \<and> prefix (drop k (queuedProperties w)) (queuedProperties w1)
         \<and> prefix (queuedProperties w1) (queuedProperties w2)
         \<and> prefix (drop m (queuedChain w)) (queuedChain w2))
   \<and> (find_prop w0 node name \<noteq> None \<longrightarrow> v \<noteq> Undefined \<longrightarrow>
        property_get (handle_property (node, name, v) w0) node name = v)"
proof -
  define k where "k = (if isPaused w then 0 else min (length (queuedProperties w)) (updateLimit w))"
  define ps where "ps = take k (queuedProperties w)"
  define w1 where "w1 = fold handle_property ps w"
  define m where "m = (if isPaused w \<or> queuedProperties w1 \<noteq> [] then 0
                       else min (length (queuedChain w)) (updateLimit w))"
  define fs where "fs = take m (queuedChain w)"
  define w2 where "w2 = fold (handle_flow ar) fs w1"
  have kl: "k \<le> length (queuedProperties w)" by (simp add: k_def)
  from property_loop_fold[OF kl] have
    p: "property_loop k w = Inr (map property_event ps, 0, w1)"
       "prefix (drop k (queuedProperties w)) (queuedProperties w1)"
       "queuedChain w1 = queuedChain w" "updateLimit w1 = updateLimit w"
    by (simp_all add: ps_def w1_def)
  have ml: "m \<le> length (queuedChain w1)" by (simp add: m_def p)
  from chain_loop_fold[OF ml, of ar] have
    c: "chain_loop ar m w1 = Inr (map flow_event (zip fs (pendings ar fs w1)), w2)"
       "prefix (drop m (queuedChain w)) (queuedChain w2)"
       "prefix (queuedProperties w1) (queuedProperties w2)"
    by (simp_all add: fs_def w2_def p)
  have u: "update ar w =
             Inr (map property_event ps @ map flow_event (zip fs (pendings ar fs w1)),
                  if isPaused w then w else if isStepping w2 then w2\<lparr>isPaused := True\<rparr> else w2)"
  proof (cases "isPaused w")
    case True
    then have "k = 0" "m = 0" by (simp_all add: k_def m_def)
    with True show ?thesis
      by (simp add: update_def ps_def fs_def)
  next
    case False
    then have k: "min (length (queuedProperties w)) (updateLimit w) = k"
      by (simp add: k_def)
    show ?thesis
    proof (cases "queuedProperties w1 = []")
      case True
      with False have "min (length (queuedChain w1)) (updateLimit w1 - 0) = m"
        by (simp add: m_def p)
      with False True p(1) c(1) show ?thesis
        by (simp add: update_def k)
    next
      case n: False
      then have "m = 0" by (simp add: m_def)
      then have "fs = []" "w2 = w1" by (simp_all add: fs_def w2_def)
      with False n p(1) show ?thesis
        by (simp add: update_def k)
    qed
  qed
  have b: "m \<le> length (queuedChain w)" "m \<le> updateLimit w"
    by (simp_all add: m_def)
  have g: "if isPaused w \<or> queuedProperties w1 \<noteq> [] then m = 0
           else k = length (queuedProperties w)
              \<and> min (length (queuedChain w)) (updateLimit w - k) \<le> m
              \<and> (m = 0 \<or> hd (pendings ar fs w1) = 0)"
  proof (cases "isPaused w \<or> queuedProperties w1 \<noteq> []")
    case True
    then show ?thesis by (simp add: m_def)
  next
    case False
    with p(2) have "length (queuedProperties w) \<le> k" by simp
    with kl have 1: "k = length (queuedProperties w)" by simp
    from False have 2: "min (length (queuedChain w)) (updateLimit w - k) \<le> m"
      by (simp add: m_def)
    have 3: "m = 0 \<or> hd (pendings ar fs w1) = 0"
    proof (cases fs)
      case Nil
      then have "m = 0" using b(1) by (auto simp: fs_def)
      then show ?thesis by simp
    next
      case (Cons f fs')
      with False show ?thesis by simp
    qed
    from False 1 2 3 show ?thesis by simp
  qed
  have "\<exists>m. let k = (if isPaused w then 0 else min (length (queuedProperties w)) (updateLimit w));
            ps = take k (queuedProperties w);
            w1 = fold handle_property ps w;
            fs = take m (queuedChain w);
            w2 = fold (handle_flow ar) fs w1
        in update ar w =
             Inr (map property_event ps @ map flow_event (zip fs (pendings ar fs w1)),
                  if isPaused w then w else if isStepping w2 then w2\<lparr>isPaused := True\<rparr> else w2)
         \<and> m \<le> length (queuedChain w) \<and> m \<le> updateLimit w
         \<and> (if isPaused w \<or> queuedProperties w1 \<noteq> [] then m = 0
             else k = length (queuedProperties w)
                \<and> min (length (queuedChain w)) (updateLimit w - k) \<le> m
                \<and> (m = 0 \<or> hd (pendings ar fs w1) = 0))
         \<and> queuedChain w1 = queuedChain w
         \<and> prefix (drop k (queuedProperties w)) (queuedProperties w1)
         \<and> prefix (queuedProperties w1) (queuedProperties w2)
         \<and> prefix (drop m (queuedChain w)) (queuedChain w2)"
    unfolding Let_def k_def[symmetric] ps_def[symmetric] w1_def[symmetric]
    apply (rule exI[of _ m])
    unfolding fs_def[symmetric] w2_def[symmetric]
    using u b g p(2,3) c(2,3) by simp
  then show ?thesis
    using property_get_handle_property[of w0 node name v] by blast
qed

text \<open>
  A script with a property update and a flow trigger queued, and the states that handling
  the queued items of \<open>both_queued\<close> and of \<open>operation_script\<close> leaves.
\<close>

definition both_queued :: world where
  "both_queued = one_process\<lparr>queuedProperties := [(0, ''p'', Num 1)], queuedChain := [(0, ''in'')]\<rparr>"

definition both_handled :: world where
  "both_handled = handle_flow int_arith (0, ''in'') (handle_property (0, ''p'', Num 1) both_queued)"

definition operation_handled :: world where
  "operation_handled =
     handle_flow int_arith (1, ''in'')
       (handle_flow int_arith (0, ''add'') (handle_property (1, ''q'', Num 0) operation_script))"

theorem update_order_witness:
  "update int_arith both_queued =
     Inr ([PropertyUpdate 0 ''p'' (Num 1), FlowTrigger 0 ''in'' 0], both_handled)
   \<and> property_get both_queued 0 ''p'' = Num 0
   \<and> property_get (handle_property (0, ''p'', Num 1) both_queued) 0 ''p'' = Num 1
   \<and> property_get both_handled 0 ''p'' = Num 1
   \<and> queuedProperties both_handled = [] \<and> queuedChain both_handled = []
   \<and> update int_arith operation_script =
        Inr ([PropertyUpdate 1 ''q'' (Num 0), FlowTrigger 0 ''add'' 0, FlowTrigger 1 ''in'' 1],
             operation_handled)
   \<and> property_get operation_script 0 ''result'' = Num 0
   \<and> property_get operation_handled 0 ''result'' = Num 2
   \<and> property_get operation_handled 1 ''q'' = Num 0
   \<and> queuedProperties operation_handled = [(1, ''q'', Num 2)] \<and> queuedChain operation_handled = []"
proof -
  let ?tick = "\<lambda>w m.
       let k = (if isPaused w then 0 else min (length (queuedProperties w)) (updateLimit w));
            ps = take k (queuedProperties w);
            w1 = fold handle_property ps w;
            fs = take m (queuedChain w);
            w2 = fold (handle_flow int_arith) fs w1
        in update int_arith w =
             Inr (map property_event ps @ map flow_event (zip fs (pendings int_arith fs w1)),
                  if isPaused w then w else if isStepping w2 then w2\<lparr>isPaused := True\<rparr> else w2)
         \<and> m \<le> length (queuedChain w) \<and> m \<le> updateLimit w
         \<and> (if isPaused w \<or> queuedProperties w1 \<noteq> [] then m = 0
             else k = length (queuedProperties w)
                \<and> min (length (queuedChain w)) (updateLimit w - k) \<le> m
                \<and> (m = 0 \<or> hd (pendings int_arith fs w1) = 0))
         \<and> queuedChain w1 = queuedChain w
         \<and> prefix (drop k (queuedProperties w)) (queuedProperties w1)
         \<and> prefix (queuedProperties w1) (queuedProperties w2)
         \<and> prefix (drop m (queuedChain w)) (queuedChain w2)"
  have b: "isPaused both_queued = False" "updateLimit both_queued = 100"
    "queuedProperties both_queued = [(0, ''p'', Num 1)]" "queuedChain both_queued = [(0, ''in'')]"
    by (simp_all add: both_queued_def one_process_def mk_world_def)
  have b1: "queuedProperties (handle_property (0, ''p'', Num 1) both_queued) = []"
    "find_prop both_queued 0 ''p'' \<noteq> None"
    "property_get both_queued 0 ''p'' = Num 0"
    by code_simp+
  have b2: "isStepping (handle_flow int_arith (0, ''in'') (handle_property (0, ''p'', Num 1) both_queued)) = False"
    "property_get both_handled 0 ''p'' = Num 1"
    "queuedProperties both_handled = []" "queuedChain both_handled = []"
    by code_simp+
  note t1 = update_order[where w = both_queued and ar = int_arith and ?w0.0 = both_queued
                           and node = 0 and name = "''p''" and v = "Num 1"]
  from t1 b1(2) have a: "property_get (handle_property (0, ''p'', Num 1) both_queued) 0 ''p'' = Num 1"
    by simp
  from t1 have "\<exists>m. ?tick both_queued m" by (rule conjunct1)
  then obtain m where r: "?tick both_queued m" ..
  from r have "m \<le> 1" "1 \<le> m"
    by (simp_all add: Let_def b b1)
  then have m: "m = 1" by simp
  from r have first: "update int_arith both_queued =
     Inr ([PropertyUpdate 0 ''p'' (Num 1), FlowTrigger 0 ''in'' 0], both_handled)"
    unfolding m both_handled_def by (simp add: Let_def b b1 b2(1))
  have o: "isPaused operation_script = False" "updateLimit operation_script = 100"
    "queuedProperties operation_script = [(Suc 0, ''q'', Num 0)]"
    "queuedChain operation_script = [(0, ''add''), (Suc 0, ''in'')]"
    "property_get operation_script 0 ''result'' = Num 0"
    by code_simp+
  have o1: "queuedProperties (handle_property (Suc 0, ''q'', Num 0) operation_script) = []"
    "length (queuedProperties (handle_flow int_arith (0, ''add'') (handle_property (Suc 0, ''q'', Num 0) operation_script))) = Suc 0"
    by code_simp+
  have o2: "isStepping (handle_flow int_arith (Suc 0, ''in'')
       (handle_flow int_arith (0, ''add'') (handle_property (Suc 0, ''q'', Num 0) operation_script))) = False"
    "property_get operation_handled 0 ''result'' = Num 2"
    "property_get operation_handled 1 ''q'' = Num 0"
    "queuedProperties operation_handled = [(1, ''q'', Num 2)]" "queuedChain operation_handled = []"
    by code_simp+
  from update_order[where w = operation_script and ar = int_arith and ?w0.0 = both_queued
                      and node = 0 and name = "''p''" and v = "Num 1"]
  have "\<exists>n. ?tick operation_script n" by (rule conjunct1)
  then obtain n where s: "?tick operation_script n" ..
  from s have "n \<le> 2" "2 \<le> n"
    by (simp_all add: Let_def o o1)
  then have n: "n = 2" by simp
  from s have second: "update int_arith operation_script =
        Inr ([PropertyUpdate 1 ''q'' (Num 0), FlowTrigger 0 ''add'' 0, FlowTrigger 1 ''in'' 1],
             operation_handled)"
    unfolding n operation_handled_def by (simp add: Let_def o o1 o2(1))
  from first second a b1(3) b2 o(5) o2 show ?thesis
    by simp
qed

section \<open>Link symmetry\<close>

text \<open>The connection arrays of a node, of one kind, with the names of their links.\<close>

definition link_ends :: "link_type \<Rightarrow> node \<Rightarrow> (string \<times> ref list) list" where
  "link_ends t n =
     (case t of
        ENTRY \<Rightarrow> map (\<lambda>l. (l_name l, l_links l)) (n_entry n)
      | EXIT \<Rightarrow> map (\<lambda>l. (l_name l, l_links l)) (n_exit n)
      | INPUT \<Rightarrow> map (\<lambda>p. (p_name p, p_inputs p)) (n_properties n)
      | OUTPUT \<Rightarrow> map (\<lambda>p. (p_name p, p_outputs p)) (n_properties n))"

lemma map_of_find:
  "map_of (map (\<lambda>x. (key x, val x)) xs) k = map_option val (find (\<lambda>x. key x = k) xs)"
  by (induction xs) auto

lemma get_links_link_ends:
  "get_links t w X n = (case node_at w X of None \<Rightarrow> None | Some nd \<Rightarrow> map_of (link_ends t nd) n)"
  by (cases t) (simp_all add: get_links_def link_ends_def map_of_find split: option.split)

lemma get_links_upd_node:
  "(\<And>t nd. link_ends t (f nd) = link_ends t nd) \<Longrightarrow> get_links t (upd_node i f w) X n = get_links t w X n"
  by (simp add: get_links_link_ends node_at_upd_node split: option.split)

lemma get_links_fields [simp]:
  "get_links t (w\<lparr>queuedProperties := qp\<rparr>) X n = get_links t w X n"
  "get_links t (w\<lparr>queuedChain := qc\<rparr>) X n = get_links t w X n"
  "get_links t (w\<lparr>isPaused := b\<rparr>) X n = get_links t w X n"
  by (simp_all add: get_links_def node_at_def)

lemma link_ends_node_flags [simp]:
  "link_ends t (nd\<lparr>n_flash := a, n_paused := b\<rparr>) = link_ends t nd"
  by (cases t) (simp_all add: link_ends_def)

lemma get_links_mark_paused [simp]: "get_links t (mark_paused node w) X n = get_links t w X n"
  by (simp add: mark_paused_def get_links_upd_node)

lemma get_links_queueNodeProperty [simp]:
  "get_links t (queueNodeProperty node name v w) X n = get_links t w X n"
  by (simp add: queueNodeProperty_def)

lemma link_ends_flags:
  "link_ends t (nd\<lparr>n_properties :=
      map (\<lambda>p. if p_name p = name then p\<lparr>p_inFlash := True, p_inPaused := b p\<rparr> else p) (n_properties nd)\<rparr>)
   = link_ends t nd"
  by (cases t) (simp_all add: link_ends_def comp_def if_distrib cong: if_cong)

lemma get_links_triggerProperty [simp]:
  "get_links t (triggerProperty this name v w) X n = get_links t w X n"
  by (simp add: triggerProperty_def Let_def get_links_upd_node link_ends_flags)

lemma get_links_onConnect [simp]:
  "get_links t (onConnect this c name ty T tn tty w) X n = get_links t w X n"
  by (simp add: onConnect_def)

text \<open>The names of all links and properties; connecting and disconnecting keep them.\<close>

definition node_names :: "node \<Rightarrow> string list \<times> string list \<times> string list" where
  "node_names n = (map l_name (n_entry n), map l_name (n_exit n), map p_name (n_properties n))"

definition names_of :: "world \<Rightarrow> (string list \<times> string list \<times> string list) list" where
  "names_of w = map node_names (nodes w)"

lemma names_of_upd_node:
  "(\<And>nd. node_names (f nd) = node_names nd) \<Longrightarrow> names_of (upd_node i f w) = names_of w"
  by (simp add: names_of_def upd_node_def map_update list_update_same_conv)

lemma map_name_upd_first:
  "(\<And>x. g (f x) = g x) \<Longrightarrow> map g (upd_first P f xs) = map g xs"
  by (induction xs) auto

lemma names_of_put_links [simp]: "names_of (put_links t X n ls w) = names_of w"
  unfolding put_links_def
  by (rule names_of_upd_node) (cases t; simp add: node_names_def map_name_upd_first)

lemma names_of_fields [simp]:
  "names_of (w\<lparr>queuedProperties := qp\<rparr>) = names_of w"
  "names_of (w\<lparr>isPaused := b\<rparr>) = names_of w"
  by (simp_all add: names_of_def)

lemma names_of_triggerProperty [simp]: "names_of (triggerProperty this name v w) = names_of w"
proof -
  have a: "names_of (mark_paused node w1) = names_of w1" for node w1
    by (simp add: mark_paused_def names_of_upd_node node_names_def)
  have b: "names_of (queueNodeProperty node nm v w1) = names_of w1" for node nm w1
    by (simp add: queueNodeProperty_def a)
  show ?thesis
    unfolding triggerProperty_def Let_def
    by (subst names_of_upd_node) (simp_all add: node_names_def comp_def if_distrib b cong: if_cong)
qed

lemma names_of_disc_loop [simp]: "names_of (disc_loop t X n tf nf i w) = names_of w"
proof (induction t X n tf nf i w rule: disc_loop.induct)
  case (1 t this name targetNode targetName i w)
  show ?case
  proof (cases "get_links t w this name")
    case None
    then show ?thesis by (simp add: disc_loop.simps)
  next
    case (Some ls)
    show ?thesis
    proof (cases "i < length ls")
      case False
      with Some show ?thesis by (simp add: disc_loop.simps)
    next
      case True
      show ?thesis
      proof (cases "selected targetNode targetName (ls ! i)")
        case False
        with Some True "1.IH"(3)[OF Some True False] show ?thesis by (simp add: disc_loop.simps)
      next
        case sel: True
        from "1.IH"(1)[OF Some True sel] "1.IH"(2)[OF Some True sel] Some True sel
        show ?thesis by (simp add: disc_loop.simps)
      qed
    qed
  qed
qed

text \<open>\<open>thinned Q xs ys\<close>: the array \<open>ys\<close> is \<open>xs\<close> with some elements that satisfy \<open>Q\<close> spliced out.\<close>

inductive thinned :: "('a \<Rightarrow> bool) \<Rightarrow> 'a list \<Rightarrow> 'a list \<Rightarrow> bool" for Q where
  thinned_Nil: "thinned Q [] []"
| thinned_keep: "thinned Q xs ys \<Longrightarrow> thinned Q (x # xs) (x # ys)"
| thinned_drop: "Q x \<Longrightarrow> thinned Q xs ys \<Longrightarrow> thinned Q (x # xs) ys"

lemma thinned_refl [simp]: "thinned Q xs xs"
  by (induction xs) (auto intro: thinned.intros)

lemma thinned_mono: "thinned Q xs ys \<Longrightarrow> (\<And>x. Q x \<Longrightarrow> Q' x) \<Longrightarrow> thinned Q' xs ys"
  by (induction rule: thinned.induct) (auto intro: thinned.intros)

lemma thinned_set: "thinned Q xs ys \<Longrightarrow> set ys \<subseteq> set xs"
  by (induction rule: thinned.induct) auto

lemma thinned_trans: "thinned Q xs ys \<Longrightarrow> thinned Q ys zs \<Longrightarrow> thinned Q xs zs"
proof (induction arbitrary: zs rule: thinned.induct)
  case thinned_Nil
  then show ?case by simp
next
  case (thinned_keep xs ys x)
  from thinned_keep.prems show ?case
  proof (cases rule: thinned.cases)
    case (thinned_keep zs')
    with thinned_keep.IH show ?thesis by (auto intro: thinned.intros)
  next
    case thinned_drop
    with thinned_keep.IH show ?thesis by (auto intro: thinned.intros)
  qed
next
  case (thinned_drop x xs ys)
  then show ?case by (auto intro: thinned.intros)
qed

lemma thinned_splice:
  "i < length xs \<Longrightarrow> Q (xs ! i) \<Longrightarrow> thinned Q xs (take i xs @ drop (Suc i) xs)"
proof (induction xs arbitrary: i)
  case Nil
  then show ?case by simp
next
  case (Cons x xs)
  show ?case
  proof (cases i)
    case 0
    with Cons.prems show ?thesis by (auto intro: thinned.intros)
  next
    case (Suc j)
    with Cons show ?thesis by (auto intro: thinned.intros)
  qed
qed

lemma thinned_take:
  "thinned Q xs ys \<Longrightarrow> \<forall>e \<in> set (take i xs). \<not> Q e \<Longrightarrow> take i ys = take i xs"
proof (induction arbitrary: i rule: thinned.induct)
  case thinned_Nil
  then show ?case by simp
next
  case (thinned_keep xs ys x)
  then show ?case by (cases i) auto
next
  case (thinned_drop x xs ys)
  then show ?case by (cases i) auto
qed

text \<open>
  A half-link \<open>(t, X, n, T, tn)\<close>: the array of the link \<open>n\<close> of kind \<open>t\<close> of node \<open>X\<close>
  holds the record \<open>(T, tn)\<close>. Its mirror is the same connection seen from the other
  end; a defect is a half-link whose mirror is missing.
\<close>

type_synonym half_link = "link_type \<times> nat \<times> string \<times> nat \<times> string"

definition half_links :: "world \<Rightarrow> half_link set" where
  "half_links w = {(t, X, n, T, tn). \<exists>ls. get_links t w X n = Some ls \<and> (T, tn) \<in> set ls}"

fun mirror :: "half_link \<Rightarrow> half_link" where
  "mirror (t, X, n, T, tn) = (opposite t, T, tn, X, n)"

definition defects :: "world \<Rightarrow> half_link set" where
  "defects w = {h \<in> half_links w. mirror h \<notin> half_links w}"

lemma opposite_opposite [simp]: "opposite (opposite t) = t"
  by (cases t) simp_all

lemma opposite_neq [simp]: "opposite t \<noteq> t" "t \<noteq> opposite t"
  by (cases t; simp)+

lemma mirror_mirror [simp]: "mirror (mirror h) = h"
  by (cases h) simp

text \<open>
  What a call of the loop of \<open>X\<close>'s link \<open>n\<close> with the filter \<open>(tf, nf)\<close> may splice
  out, anywhere: a record that the filter selects, from a link of \<open>X\<close> (of the name \<open>n\<close>,
  or of any name when \<open>n\<close> is empty), or the mirror of such a record.
\<close>

definition removable ::
  "link_type \<Rightarrow> nat \<Rightarrow> string \<Rightarrow> nat option \<Rightarrow> string option \<Rightarrow> half_link \<Rightarrow> bool" where
  "removable t X n tf nf h =
     (case h of (t', Y, m, Z, z) \<Rightarrow>
        (t' = t \<and> Y = X \<and> (n = [] \<or> m = n) \<and> selected tf nf (Z, z)) \<or>
        (t' = opposite t \<and> Z = X \<and> (n = [] \<or> z = n) \<and> selected tf nf (Y, m)))"

lemma selected_loose:
  "selected tf nf (T, y) \<Longrightarrow> y = [] \<or> z = y \<Longrightarrow> selected tf nf (T, z)"
  by (auto simp: selected_def)

lemma removable_nested:
  assumes "selected tf nf (T, y)"
      and "removable (opposite t) T y (Some X) (Some n) h"
  shows "removable t X n tf nf h"
proof -
  obtain t' Y m Z z where h: "h = (t', Y, m, Z, z)" by (cases h)
  from assms(2) consider
      (own) "t' = opposite t" "Y = T" "y = [] \<or> m = y" "selected (Some X) (Some n) (Z, z)"
    | (other) "t' = t" "Z = T" "y = [] \<or> z = y" "selected (Some X) (Some n) (Y, m)"
    by (auto simp: h removable_def)
  then show ?thesis
  proof cases
    case own
    from own(4) have "Z = X" "n = [] \<or> z = n" by (auto simp: selected_def)
    moreover from selected_loose[OF assms(1) own(3)] own(2) have "selected tf nf (Y, m)" by simp
    ultimately show ?thesis using own(1) by (simp add: h removable_def)
  next
    case other
    from other(4) have "Y = X" "n = [] \<or> m = n" by (auto simp: selected_def)
    moreover from selected_loose[OF assms(1) other(3)] other(2) have "selected tf nf (Z, z)" by simp
    ultimately show ?thesis using other(1) by (simp add: h removable_def)
  qed
qed

lemma removable_own: "removable t X n tf nf (t, X, n, Z, z) \<longleftrightarrow> selected tf nf (Z, z)"
  by (auto simp: removable_def)

text \<open>\<open>thins R w w'\<close>: every connection array of \<open>w'\<close> is the one of \<open>w\<close> with some records spliced out, each of them a half-link that \<open>R\<close> allows.\<close>

definition thins :: "(half_link \<Rightarrow> bool) \<Rightarrow> world \<Rightarrow> world \<Rightarrow> bool" where
  "thins R w w' \<longleftrightarrow>
     (\<forall>t Y m. rel_option (thinned (\<lambda>e. R (t, Y, m, e)))
                 (get_links t w Y m) (get_links t w' Y m))"

lemma thins_refl [simp]: "thins R w w"
  by (simp add: thins_def option.rel_refl)

lemma thins_trans: "thins R w w1 \<Longrightarrow> thins R w1 w2 \<Longrightarrow> thins R w w2"
  unfolding thins_def
proof (intro allI)
  fix t Y m
  assume a: "\<forall>t Y m. rel_option (thinned (\<lambda>e. R (t, Y, m, e))) (get_links t w Y m) (get_links t w1 Y m)"
     and b: "\<forall>t Y m. rel_option (thinned (\<lambda>e. R (t, Y, m, e))) (get_links t w1 Y m) (get_links t w2 Y m)"
  from a[rule_format, of t Y m] b[rule_format, of t Y m]
  show "rel_option (thinned (\<lambda>e. R (t, Y, m, e))) (get_links t w Y m) (get_links t w2 Y m)"
    by (cases "get_links t w Y m"; cases "get_links t w1 Y m"; cases "get_links t w2 Y m")
       (auto intro: thinned_trans)
qed

lemma thins_mono: "thins R w w' \<Longrightarrow> (\<And>h. R h \<Longrightarrow> R' h) \<Longrightarrow> thins R' w w'"
  unfolding thins_def
proof (intro allI)
  fix t Y m
  assume a: "\<forall>t Y m. rel_option (thinned (\<lambda>e. R (t, Y, m, e))) (get_links t w Y m) (get_links t w' Y m)"
     and r: "\<And>h. R h \<Longrightarrow> R' h"
  have "thinned (\<lambda>e. R' (t, Y, m, e)) xs ys" if "thinned (\<lambda>e. R (t, Y, m, e)) xs ys" for xs ys
    using that by (rule thinned_mono) (rule r)
  with a[rule_format, of t Y m]
  show "rel_option (thinned (\<lambda>e. R' (t, Y, m, e))) (get_links t w Y m) (get_links t w' Y m)"
    by (cases "get_links t w Y m"; cases "get_links t w' Y m") auto
qed

lemma thins_Some:
  "thins R w w' \<Longrightarrow> get_links t w X n = Some ls \<Longrightarrow>
   \<exists>ls'. get_links t w' X n = Some ls' \<and> thinned (\<lambda>e. R (t, X, n, e)) ls ls'"
  unfolding thins_def
  by (erule allE[of _ t], erule allE[of _ X], erule allE[of _ n]) (auto simp: option_rel_Some1)

lemma thins_Some':
  "thins R w w' \<Longrightarrow> get_links t w' X n = Some ls' \<Longrightarrow>
   \<exists>ls. get_links t w X n = Some ls \<and> thinned (\<lambda>e. R (t, X, n, e)) ls ls'"
  unfolding thins_def
  by (erule allE[of _ t], erule allE[of _ X], erule allE[of _ n]) (auto simp: option_rel_Some2)

lemma thins_half_links: "thins R w w' \<Longrightarrow> half_links w' \<subseteq> half_links w"
  by (auto simp: half_links_def dest!: thins_Some' dest: thinned_set)

lemma thins_put:
  assumes "get_links t w X n = Some ls" and "i < length ls" and "R (t, X, n, ls ! i)"
  shows "thins R w (put_links t X n (take i ls @ drop (Suc i) ls) w)"
  unfolding thins_def
proof (intro allI)
  fix t' Y m
  show "rel_option (thinned (\<lambda>e. R (t', Y, m, e))) (get_links t' w Y m)
          (get_links t' (put_links t X n (take i ls @ drop (Suc i) ls) w) Y m)"
  proof (cases "t' = t \<and> Y = X \<and> m = n")
    case True
    with assms show ?thesis
      by (simp add: get_links_put_links thinned_splice)
  next
    case False
    then show ?thesis
      by (auto simp: get_links_put_links option.rel_refl)
  qed
qed

lemma set_splice: "i < length xs \<Longrightarrow> set xs = insert (xs ! i) (set (take i xs @ drop (Suc i) xs))"
proof -
  assume "i < length xs"
  then have "xs = take i xs @ xs ! i # drop (Suc i) xs"
    by (rule id_take_nth_drop)
  then have "set xs = set (take i xs @ xs ! i # drop (Suc i) xs)"
    by simp
  then show ?thesis by simp
qed

lemma half_links_put:
  assumes "get_links t w X n = Some ls" and "i < length ls"
  shows "half_links w \<subseteq> insert (t, X, n, ls ! i)
           (half_links (put_links t X n (take i ls @ drop (Suc i) ls) w))"
proof
  fix h assume h: "h \<in> half_links w"
  obtain t' Y m Z z where e: "h = (t', Y, m, Z, z)" by (cases h)
  from h obtain xs where xs: "get_links t' w Y m = Some xs" "(Z, z) \<in> set xs"
    by (auto simp: half_links_def e)
  show "h \<in> insert (t, X, n, ls ! i)
           (half_links (put_links t X n (take i ls @ drop (Suc i) ls) w))"
  proof (cases "t' = t \<and> Y = X \<and> m = n")
    case True
    with xs assms have "(Z, z) \<in> insert (ls ! i) (set (take i ls @ drop (Suc i) ls))"
      using set_splice[OF assms(2)] by simp
    with True assms show ?thesis
      by (auto simp: half_links_def e get_links_put_links)
  next
    case False
    with xs show ?thesis
      by (auto simp: half_links_def e get_links_put_links)
  qed
qed

lemma defects_put:
  assumes "get_links t w X n = Some ls" and "i < length ls"
  shows "defects (put_links t X n (take i ls @ drop (Suc i) ls) w)
           \<subseteq> insert (mirror (t, X, n, ls ! i)) (defects w)"
proof
  let ?w1 = "put_links t X n (take i ls @ drop (Suc i) ls) w"
  let ?h = "(t, X, n, ls ! i)"
  fix x assume x: "x \<in> defects ?w1"
  have sub: "half_links ?w1 \<subseteq> half_links w"
    by (rule thins_half_links[OF thins_put[OF assms, of "\<lambda>h. True"]]) simp
  from x have a: "x \<in> half_links ?w1" "mirror x \<notin> half_links ?w1"
    by (simp_all add: defects_def)
  show "x \<in> insert (mirror ?h) (defects w)"
  proof (cases "mirror x \<in> half_links w")
    case True
    with half_links_put[OF assms] a(2) have "mirror x = ?h" by auto
    then have "mirror (mirror x) = mirror ?h" by (rule arg_cong)
    then show ?thesis by simp
  next
    case False
    with a(1) sub show ?thesis by (auto simp: defects_def)
  qed
qed

lemma removable_own': "removable t X n tf nf (t, X, n, e) \<longleftrightarrow> selected tf nf e"
  by (cases e) (simp add: removable_own)

lemma mirror_half_link: "mirror (t, X, n, e) = (opposite t, fst e, snd e, X, n)"
  by (cases e) simp

text \<open>What one run of the loop, from index \<open>i\<close>, guarantees.\<close>

definition disc_ok ::
  "link_type \<Rightarrow> nat \<Rightarrow> string \<Rightarrow> nat option \<Rightarrow> string option \<Rightarrow> nat \<Rightarrow> world \<Rightarrow> world \<Rightarrow> bool" where
  "disc_ok t X n tf nf i w w' \<longleftrightarrow>
     thins (removable t X n tf nf) w w' \<and> defects w' \<subseteq> defects w \<and>
     ((\<forall>ls. get_links t w X n = Some ls \<longrightarrow> (\<forall>e \<in> set (take i ls). \<not> selected tf nf e)) \<longrightarrow>
      (\<forall>ls'. get_links t w' X n = Some ls' \<longrightarrow> (\<forall>e \<in> set ls'. \<not> selected tf nf e)))"

lemma disc_ok_done:
  "get_links t w X n = None \<or> (\<exists>ls. get_links t w X n = Some ls \<and> \<not> i < length ls) \<Longrightarrow>
   disc_ok t X n tf nf i w w"
  by (auto simp: disc_ok_def)

lemma disc_ok_skip:
  assumes "get_links t w X n = Some ls" and "i < length ls" and "\<not> selected tf nf (ls ! i)"
      and "disc_ok t X n tf nf (Suc i) w w'"
  shows "disc_ok t X n tf nf i w w'"
  using assms by (auto simp: disc_ok_def take_Suc_conv_app_nth)

lemma disc_ok_remove:
  assumes g: "get_links t w X n = Some ls" and i: "i < length ls"
      and sel: "selected tf nf (ls ! i)"
      and n1: "disc_ok (opposite t) (fst (ls ! i)) (snd (ls ! i)) (Some X) (Some n) 0
                 (put_links t X n (take i ls @ drop (Suc i) ls) w) w2"
      and n2: "disc_ok t X n tf nf i w2 w'"
  shows "disc_ok t X n tf nf i w w'"
proof -
  let ?w1 = "put_links t X n (take i ls @ drop (Suc i) ls) w"
  let ?ls1 = "take i ls @ drop (Suc i) ls"
  let ?T = "fst (ls ! i)" and ?y = "snd (ls ! i)"
  let ?R = "removable t X n tf nf"
  have sel': "selected tf nf (?T, ?y)" using sel by simp
  have t1: "thins ?R w ?w1"
    by (rule thins_put[OF g i]) (simp add: removable_own' sel)
  have t2: "thins ?R ?w1 w2"
    using n1 by (auto simp: disc_ok_def intro: thins_mono removable_nested[OF sel'])
  have t3: "thins ?R w2 w'"
    using n2 by (simp add: disc_ok_def)
  have thin: "thins ?R w w'"
    by (rule thins_trans[OF thins_trans[OF t1 t2] t3])
  have gone: "mirror (t, X, n, ls ! i) \<notin> half_links w2"
  proof
    assume "mirror (t, X, n, ls ! i) \<in> half_links w2"
    then obtain ls' where "get_links (opposite t) w2 ?T ?y = Some ls'" "(X, n) \<in> set ls'"
      by (auto simp: half_links_def mirror_half_link)
    moreover from n1 have "\<forall>ls'. get_links (opposite t) w2 ?T ?y = Some ls' \<longrightarrow>
        (\<forall>e \<in> set ls'. \<not> selected (Some X) (Some n) e)"
      by (simp add: disc_ok_def)
    ultimately show False by (auto simp: selected_def)
  qed
  have d: "defects w' \<subseteq> defects w"
  proof
    fix x assume "x \<in> defects w'"
    with n2 have x2: "x \<in> defects w2" by (auto simp: disc_ok_def)
    with n1 have "x \<in> defects ?w1" by (auto simp: disc_ok_def)
    with defects_put[OF g i] have "x = mirror (t, X, n, ls ! i) \<or> x \<in> defects w" by auto
    moreover from x2 have "x \<in> half_links w2" by (simp add: defects_def)
    ultimately show "x \<in> defects w" using gone by auto
  qed
  have c: "\<forall>ls'. get_links t w' X n = Some ls' \<longrightarrow> (\<forall>e \<in> set ls'. \<not> selected tf nf e)"
    if clean: "\<forall>ls. get_links t w X n = Some ls \<longrightarrow> (\<forall>e \<in> set (take i ls). \<not> selected tf nf e)"
  proof -
    have g1: "get_links t ?w1 X n = Some ?ls1"
      using g by (simp add: get_links_put_links)
    from thins_Some[OF t2 g1] obtain ls2 where
      ls2: "get_links t w2 X n = Some ls2" "thinned (\<lambda>e. ?R (t, X, n, e)) ?ls1 ls2"
      by blast
    have "thinned (selected tf nf) ?ls1 ls2"
      by (rule thinned_mono[OF ls2(2)]) (simp add: removable_own')
    moreover have "\<forall>e \<in> set (take i ?ls1). \<not> selected tf nf e"
      using clean g i by simp
    ultimately have "take i ls2 = take i ?ls1"
      by (rule thinned_take)
    with clean g i have "\<forall>e \<in> set (take i ls2). \<not> selected tf nf e"
      by simp
    with ls2(1) n2 show ?thesis
      by (simp add: disc_ok_def)
  qed
  from thin d c show ?thesis
    by (simp add: disc_ok_def)
qed

lemma disc_loop_ok: "disc_ok t X n tf nf i w (disc_loop t X n tf nf i w)"
proof (induction t X n tf nf i w rule: disc_loop.induct)
  case (1 t this name targetNode targetName i w)
  show ?case
  proof (cases "get_links t w this name")
    case None
    then show ?thesis by (simp add: disc_ok_done disc_loop.simps)
  next
    case (Some ls)
    show ?thesis
    proof (cases "i < length ls")
      case False
      with Some show ?thesis by (simp add: disc_ok_done disc_loop.simps)
    next
      case True
      show ?thesis
      proof (cases "selected targetNode targetName (ls ! i)")
        case False
        from disc_ok_skip[OF Some True False "1.IH"(3)[OF Some True False]] Some True False
        show ?thesis by (simp add: disc_loop.simps)
      next
        case sel: True
        from disc_ok_remove[OF Some True sel "1.IH"(1)[OF Some True sel] "1.IH"(2)[OF Some True sel]]
             Some True sel
        show ?thesis by (simp add: disc_loop.simps)
      qed
    qed
  qed
qed

text \<open>
  Link symmetry, as a check that runs: every record \<open>(T, tn)\<close> in a connection array of
  the link \<open>n\<close> of a node \<open>X\<close> is answered by the record \<open>(X, n)\<close> in the array of the
  link \<open>tn\<close>, of the opposite kind, of the node \<open>T\<close>.
\<close>

definition symmetric :: "world \<Rightarrow> bool" where
  "symmetric w \<longleftrightarrow>
     (\<forall>X \<in> set [0..<length (nodes w)]. \<forall>t \<in> set [ENTRY, EXIT, INPUT, OUTPUT].
        \<forall>(n, ls) \<in> set (link_ends t (nodes w ! X)). \<forall>(T, tn) \<in> set ls.
          (case get_links (opposite t) w T tn of None \<Rightarrow> False | Some ls' \<Rightarrow> (X, n) \<in> set ls'))"

text \<open>
  Within a node the entry links, the exit links and the properties have names of their
  own, as \<open>createEntry\<close>, \<open>createExit\<close> and \<open>createProperty\<close> see to.
\<close>

definition distinct_names :: "world \<Rightarrow> bool" where
  "distinct_names w \<longleftrightarrow>
     (\<forall>nd \<in> set (nodes w).
        distinct (map l_name (n_entry nd)) \<and> distinct (map l_name (n_exit nd)) \<and>
        distinct (map p_name (n_properties nd)))"

lemma distinct_names_names_of: "names_of w' = names_of w \<Longrightarrow> distinct_names w' = distinct_names w"
proof -
  have "distinct_names v \<longleftrightarrow> (\<forall>x \<in> set (names_of v). distinct (fst x) \<and> distinct (fst (snd x)) \<and> distinct (snd (snd x)))" for v
    by (simp add: distinct_names_def names_of_def node_names_def)
  then show "names_of w' = names_of w \<Longrightarrow> distinct_names w' = distinct_names w"
    by simp
qed

lemma distinct_link_ends:
  "distinct_names w \<Longrightarrow> X < length (nodes w) \<Longrightarrow> distinct (map fst (link_ends t (nodes w ! X)))"
  by (cases t) (auto simp: distinct_names_def link_ends_def comp_def)

lemma half_links_link_ends:
  assumes "distinct_names w"
  shows "(t, X, n, T, tn) \<in> half_links w \<longleftrightarrow>
         X < length (nodes w) \<and> (\<exists>ls. (n, ls) \<in> set (link_ends t (nodes w ! X)) \<and> (T, tn) \<in> set ls)"
proof (cases "X < length (nodes w)")
  case True
  with distinct_link_ends[OF assms True, of t] show ?thesis
    by (simp add: half_links_def get_links_link_ends node_at_def)
next
  case False
  then show ?thesis
    by (simp add: half_links_def get_links_link_ends node_at_def)
qed

lemma mirror_in_half_links:
  "(opposite t, T, tn, X, n) \<in> half_links w \<longleftrightarrow>
   (case get_links (opposite t) w T tn of None \<Rightarrow> False | Some ls' \<Rightarrow> (X, n) \<in> set ls')"
  by (auto simp: half_links_def split: option.split)

lemma all_link_types: "set [ENTRY, EXIT, INPUT, OUTPUT] = UNIV"
proof -
  have "t \<in> set [ENTRY, EXIT, INPUT, OUTPUT]" for t
    by (cases t) simp_all
  then show ?thesis by blast
qed

lemma symmetric_iff_no_defects:
  assumes "distinct_names w"
  shows "symmetric w \<longleftrightarrow> defects w = {}"
proof
  assume s: "symmetric w"
  show "defects w = {}"
  proof (rule ccontr)
    assume "defects w \<noteq> {}"
    then obtain h where h: "h \<in> half_links w" "mirror h \<notin> half_links w"
      by (auto simp: defects_def)
    obtain t X n T tn where e: "h = (t, X, n, T, tn)" by (cases h)
    from h(1) obtain ls where ls: "X < length (nodes w)" "(n, ls) \<in> set (link_ends t (nodes w ! X))"
      "(T, tn) \<in> set ls"
      unfolding e half_links_link_ends[OF assms] by blast
    from s ls have "case get_links (opposite t) w T tn of None \<Rightarrow> False | Some ls' \<Rightarrow> (X, n) \<in> set ls'"
      unfolding symmetric_def all_link_types by fastforce
    with h(2) show False
      by (simp add: e mirror_in_half_links)
  qed
next
  assume d: "defects w = {}"
  show "symmetric w"
    unfolding symmetric_def
  proof (intro ballI, clarify)
    fix X t n ls T tn
    assume a: "X \<in> set [0..<length (nodes w)]" "(n, ls) \<in> set (link_ends t (nodes w ! X))" "(T, tn) \<in> set ls"
    then have "(t, X, n, T, tn) \<in> half_links w"
      unfolding half_links_link_ends[OF assms] by auto
    with d have "mirror (t, X, n, T, tn) \<in> half_links w"
      by (auto simp: defects_def)
    then show "case get_links (opposite t) w T tn of None \<Rightarrow> False | Some ls' \<Rightarrow> (X, n) \<in> set ls'"
      by (simp add: mirror_in_half_links)
  qed
qed

text \<open>Connecting adds a half-link and its mirror.\<close>

lemma half_links_iff:
  "(t, X, n, e) \<in> half_links w \<longleftrightarrow> (\<exists>ls. get_links t w X n = Some ls \<and> e \<in> set ls)"
  by (cases e) (simp add: half_links_def)

lemma half_links_push:
  assumes "get_links t w X n = Some ls"
  shows "half_links (push_link t X n r w) = insert (t, X, n, r) (half_links w)"
proof -
  have p: "push_link t X n r w = put_links t X n (ls @ [r]) w"
    using assms by (simp add: push_link_def)
  have g: "get_links t' (push_link t X n r w) Y m =
             (if t' = t \<and> Y = X \<and> m = n then Some (ls @ [r]) else get_links t' w Y m)" for t' Y m
    using assms by (simp add: p get_links_put_links)
  show ?thesis
  proof (intro set_eqI)
    fix h :: half_link
    obtain t' Y m e where e: "h = (t', Y, m, e)" by (cases h)
    show "h \<in> half_links (push_link t X n r w) \<longleftrightarrow> h \<in> insert (t, X, n, r) (half_links w)"
    proof (cases "t' = t \<and> Y = X \<and> m = n")
      case True
      with assms show ?thesis
        unfolding e by (auto simp: half_links_iff g)
    next
      case False
      then show ?thesis
        unfolding e by (auto simp: half_links_iff g)
    qed
  qed
qed

lemma half_links_onConnect [simp]:
  "half_links (onConnect this c name ty T tn tty w) = half_links w"
  by (simp add: half_links_def)

lemma names_of_onConnect [simp]: "names_of (onConnect this c name ty T tn tty w) = names_of w"
  by (simp add: onConnect_def)

lemma names_of_push_link [simp]: "names_of (push_link t X n r w) = names_of w"
  by (simp add: push_link_def split: option.split)

lemma connect_cases:
  "snd (connect t X n T tn w) = w \<and> fst (connect t X n T tn w) \<noteq> SUCCESS \<or>
   (\<exists>my tl. get_links t w X n = Some my \<and> get_links (opposite t) w T tn = Some tl \<and>
      snd (connect t X n T tn w) =
        onConnect T True tn (opposite t) X n t
          (onConnect X True n t T tn (opposite t)
             (push_link (opposite t) T tn (X, n) (push_link t X n (T, tn) w))))"
proof (cases "get_links t w X n")
  case None
  then show ?thesis by (simp add: connect_def)
next
  case my: (Some my)
  show ?thesis
  proof (cases "get_links (opposite t) w T tn")
    case None
    with my show ?thesis by (simp add: connect_def)
  next
    case (Some tl)
    with my show ?thesis by (simp add: connect_def Let_def)
  qed
qed

lemma names_of_connect [simp]: "names_of (snd (connect t X n T tn w)) = names_of w"
  using connect_cases[of t X n T tn w] by (elim disjE conjE exE) simp_all


lemma names_of_disconnect [simp]: "names_of (snd (disconnect t X n tf nf w)) = names_of w"
  by (simp add: disconnect_def split: option.split)


lemma defects_connect:
  assumes "defects w = {}"
  shows "defects (snd (connect t X n T tn w)) = {}"
  using connect_cases[of t X n T tn w]
proof (elim disjE conjE exE)
  assume "snd (connect t X n T tn w) = w"
  with assms show ?thesis by simp
next
  fix my tl
  assume g: "get_links t w X n = Some my" "get_links (opposite t) w T tn = Some tl"
     and c: "snd (connect t X n T tn w) =
        onConnect T True tn (opposite t) X n t
          (onConnect X True n t T tn (opposite t)
             (push_link (opposite t) T tn (X, n) (push_link t X n (T, tn) w)))"
  define w1 where "w1 = push_link t X n (T, tn) w"
  have "get_links (opposite t) w1 T tn = get_links (opposite t) w T tn"
    using g(1) by (simp add: w1_def push_link_def get_links_put_links)
  with g(2) have g1: "get_links (opposite t) w1 T tn = Some tl" by simp
  have h: "half_links (snd (connect t X n T tn w)) =
           insert (opposite t, T, tn, X, n) (insert (t, X, n, T, tn) (half_links w))"
    unfolding c half_links_onConnect w1_def[symmetric] half_links_push[OF g1]
    by (simp add: w1_def half_links_push[OF g(1)])
  show ?thesis
  proof (rule ccontr)
    assume "defects (snd (connect t X n T tn w)) \<noteq> {}"
    then obtain x where x: "x \<in> half_links (snd (connect t X n T tn w))"
        "mirror x \<notin> half_links (snd (connect t X n T tn w))"
      unfolding defects_def by blast
    from x(1) h consider "x = (opposite t, T, tn, X, n)" | "x = (t, X, n, T, tn)" | "x \<in> half_links w"
      by blast
    then show False
    proof cases
      case 1
      with x(2) h show False by simp
    next
      case 2
      with x(2) h show False by simp
    next
      case 3
      with assms have "mirror x \<in> half_links w" unfolding defects_def by blast
      with x(2) h show False by simp
    qed
  qed
qed

lemma defects_disconnect:
  assumes "defects w = {}"
  shows "defects (snd (disconnect t X n tf nf w)) = {}"
proof -
  have "defects (disc_loop t X n tf nf 0 w) \<subseteq> defects w"
    using disc_loop_ok[of t X n tf nf 0 w] by (simp add: disc_ok_def)
  with assms show ?thesis
    by (auto simp: disconnect_def split: option.split)
qed

text \<open>
  A call of one of the eight functions: \<open>Connect ENTRY\<close> is \<open>connectEntry\<close>,
  \<open>Disconnect OUTPUT\<close> is \<open>disconnectOutput\<close>, and so on; the filters of a disconnect are
  optional.
\<close>

datatype operation =
    Connect link_type nat string nat string
  | Disconnect link_type nat string "nat option" "string option"

fun apply_operation :: "operation \<Rightarrow> world \<Rightarrow> world" where
  "apply_operation (Connect t this name targetNode targetName) w =
     snd (connect t this name targetNode targetName w)"
| "apply_operation (Disconnect t this name targetNode targetName) w =
     snd (disconnect t this name targetNode targetName w)"




lemma apply_operation_invariant:
  assumes "distinct_names w" and "symmetric w"
  shows "distinct_names (apply_operation op w) \<and> symmetric (apply_operation op w)"
proof -
  have n: "names_of (apply_operation op w) = names_of w"
    by (cases op) simp_all
  have dn: "distinct_names (apply_operation op w)"
    using distinct_names_names_of[OF n] assms(1) by simp
  from assms have "defects w = {}"
    by (simp add: symmetric_iff_no_defects)
  then have "defects (apply_operation op w) = {}"
    by (cases op) (simp_all add: defects_connect defects_disconnect)
  with dn show ?thesis
    by (simp add: symmetric_iff_no_defects)
qed

text \<open>
  C3. Link symmetry holds after every sequence of connect and disconnect calls, with or
  without filters, on a script in which it holds (and in which the links of a node have
  names of their own, which the calls keep).
\<close>

theorem link_symmetry_invariant:
  assumes "distinct_names w" and "symmetric w"
  shows "symmetric (fold apply_operation ops w) \<and> distinct_names (fold apply_operation ops w)"
  using assms
proof (induction ops arbitrary: w)
  case Nil
  then show ?case by simp
next
  case (Cons op ops)
  from apply_operation_invariant[OF Cons.prems, of op] Cons.IH[of "apply_operation op w"]
  show ?case by simp
qed

text \<open>
  Two process nodes connected by a flow link, a self-connection and a property link;
  then a filtered disconnect, a connect from the other side that is already there, and
  an unfiltered disconnect.
\<close>

definition linked_script :: world where
  "linked_script =
     fold apply_operation
       [Connect ENTRY 0 ''in'' 1 ''out'', Connect EXIT 0 ''out'' 0 ''in'', Connect OUTPUT 0 ''p'' 1 ''q'']
       two_processes"


theorem link_symmetry_invariant_witness:
  "distinct_names linked_script \<and> symmetric linked_script
   \<and> get_links ENTRY linked_script 0 ''in'' = Some [(1, ''out''), (0, ''out'')]
   \<and> symmetric (fold apply_operation
        [Disconnect ENTRY 0 ''in'' (Some 1) None, Connect INPUT 1 ''q'' 0 ''p'',
         Disconnect OUTPUT 0 ''p'' None None] linked_script)
   \<and> get_links ENTRY (fold apply_operation
        [Disconnect ENTRY 0 ''in'' (Some 1) None, Connect INPUT 1 ''q'' 0 ''p'',
         Disconnect OUTPUT 0 ''p'' None None] linked_script) 0 ''in'' = Some [(0, ''out'')]
   \<and> get_links EXIT (fold apply_operation
        [Disconnect ENTRY 0 ''in'' (Some 1) None, Connect INPUT 1 ''q'' 0 ''p'',
         Disconnect OUTPUT 0 ''p'' None None] linked_script) 1 ''out'' = Some []"
proof -
  have a: "distinct_names linked_script" "symmetric linked_script"
    "get_links ENTRY linked_script 0 ''in'' = Some [(1, ''out''), (0, ''out'')]"
    by code_simp+
  have b: "get_links ENTRY (fold apply_operation
        [Disconnect ENTRY 0 ''in'' (Some 1) None, Connect INPUT 1 ''q'' 0 ''p'',
         Disconnect OUTPUT 0 ''p'' None None] linked_script) 0 ''in'' = Some [(0, ''out'')]"
    "get_links EXIT (fold apply_operation
        [Disconnect ENTRY 0 ''in'' (Some 1) None, Connect INPUT 1 ''q'' 0 ''p'',
         Disconnect OUTPUT 0 ''p'' None None] linked_script) 1 ''out'' = Some []"
    by code_simp+
  from link_symmetry_invariant[OF a(1,2), of "[Disconnect ENTRY 0 ''in'' (Some 1) None,
         Connect INPUT 1 ''q'' 0 ''p'', Disconnect OUTPUT 0 ''p'' None None]"] a b
  show ?thesis by simp
qed

end
